theory Spec2Isabelle
  imports Main
begin

text \<open>
  A model of the Mines shell, \<open>MinesShell.cpp\<close>: the normalisation and splitting of an
  input line, the two syntax checks, the three ways a command is run (\<open>executeCommand\<close>,
  \<open>executePipedCommand\<close>, \<open>executeCommandInBackground\<close>) and the interactive command loop
  of \<open>main\<close>. The shell process is a state that is passed along; the system calls it makes
  are recorded in order, and each spawned process is followed until it calls \<open>execvp\<close>
  or \<open>exit\<close>. The script mode of \<open>main\<close> (a file name as argument) is not modelled.
\<close>

section \<open>Input normalisation and tokenisation\<close>

text \<open>
  The shell reads a line, isolates the operator characters with \<open>checkWhiteSpaces\<close>
  (lines 389--412) and splits the result on whitespace with \<open>tokenize\<close> (lines 42--45).
  Characters are bytes (C++ \<open>char\<close>).
\<close>

definition isspace_c :: "char \<Rightarrow> bool" where
  \<comment> \<open>\<open>isspace\<close> of the C locale: space, \<open>\t\<close>, \<open>\n\<close>, \<open>\v\<close>, \<open>\f\<close>, \<open>\r\<close>;
      the same class \<open>operator>>\<close> skips when it extracts a word.\<close>
  "isspace_c c = (c = CHR '' '' \<or> c = CHR 0x09 \<or> c = CHR 0x0A \<or> c = CHR 0x0B
                  \<or> c = CHR 0x0C \<or> c = CHR 0x0D)"

definition specialChars :: string where
  "specialChars = ''|<>&''"

definition strchr_found :: "string \<Rightarrow> char \<Rightarrow> bool" where
  \<comment> \<open>\<open>strchr(s, c) != NULL\<close>: the terminating NUL of \<open>s\<close> counts as part of it.\<close>
  "strchr_found s c = (c \<in> set s \<or> c = CHR 0x00)"

text \<open>
  \<open>checkWhiteSpaces\<close>: the loop over \<open>i\<close>, with the characters already read (\<open>seen\<close>,
  so that \<open>input[i - 1]\<close> is its last one and \<open>i > 0\<close> is \<open>seen \<noteq> []\<close>) and the
  characters still to read (whose second element is \<open>input[i + 1]\<close>).
\<close>

fun checkWhiteSpaces_loop :: "string \<Rightarrow> string \<Rightarrow> string" where
  "checkWhiteSpaces_loop seen [] = []"
| "checkWhiteSpaces_loop seen (current # rest) =
     (if strchr_found specialChars current then
        (if seen \<noteq> [] \<and> \<not> isspace_c (last seen) then '' '' else [])
        @ [current]
        @ (if rest \<noteq> [] \<and> \<not> isspace_c (hd rest) then '' '' else [])
      else [current])
     @ checkWhiteSpaces_loop (seen @ [current]) rest"

definition checkWhiteSpaces :: "string \<Rightarrow> string" where
  "checkWhiteSpaces input = checkWhiteSpaces_loop [] input"

text \<open>
  \<open>tokenize\<close>: \<open>istream_iterator<string>\<close> extracts maximal runs of non-whitespace
  characters. \<open>word\<close> is the run being read.
\<close>

fun tokenize_from :: "string \<Rightarrow> string \<Rightarrow> string list" where
  "tokenize_from word [] = (if word = [] then [] else [word])"
| "tokenize_from word (c # cs) =
     (if isspace_c c then (if word = [] then [] else [word]) @ tokenize_from [] cs
      else tokenize_from (word @ [c]) cs)"

definition tokenize :: "string \<Rightarrow> string list" where
  "tokenize str = tokenize_from [] str"

section \<open>Token utilities and the syntax checks\<close>

text \<open>
  \<open>findTokenIndex\<close> (lines 52--55), \<open>hasSyntaxErrors\<close> (lines 62--90),
  \<open>hasMultipleRedirectionsOrPipes\<close> (lines 353--386), \<open>isBackgroundCommand\<close>
  (lines 307--309) and \<open>segment_args\<close> (lines 34--41).
\<close>

fun findTokenIndex :: "string list \<Rightarrow> string \<Rightarrow> int" where
  \<comment> \<open>\<open>std::find\<close> and \<open>distance\<close>: the index of the first occurrence, or \<open>-1\<close>.\<close>
  "findTokenIndex [] token = -1"
| "findTokenIndex (t # ts) token =
     (if t = token then 0
      else (let r = findTokenIndex ts token in if r = -1 then -1 else r + 1))"

text \<open>
  \<open>hasSyntaxErrors\<close>: the loop over \<open>i\<close>; the last argument is the part of \<open>tokens\<close> from
  index \<open>i\<close> on. The diagnostics written to the error stream are not part of the result.
\<close>

fun hasSyntaxErrors_loop ::
  "string list \<Rightarrow> nat \<Rightarrow> int \<Rightarrow> int \<Rightarrow> int \<Rightarrow> string \<Rightarrow> string list \<Rightarrow> bool" where
  "hasSyntaxErrors_loop tokens i redirectInCount redirectOutCount pipeCount prevToken [] = False"
| "hasSyntaxErrors_loop tokens i redirectInCount redirectOutCount pipeCount prevToken (t # rest) =
     (if t = ''<'' then
        (if i = 0 \<or> tokens ! (i - 1) = ''|'' \<or> redirectInCount + 1 > 1 then True
         else hasSyntaxErrors_loop tokens (i + 1) (redirectInCount + 1) redirectOutCount pipeCount t rest)
      else if t = ''>'' then
        (if i = 0 \<or> tokens ! (i - 1) = ''|'' \<or> redirectOutCount + 1 > 1 then True
         else hasSyntaxErrors_loop tokens (i + 1) redirectInCount (redirectOutCount + 1) pipeCount t rest)
      else if t = ''|'' then
        (if prevToken = ''|'' \<or> i = 0 \<or> i = length tokens - 1 then True
         else hasSyntaxErrors_loop tokens (i + 1) redirectInCount redirectOutCount (pipeCount + 1) t rest)
      else hasSyntaxErrors_loop tokens (i + 1) redirectInCount redirectOutCount pipeCount t rest)"

definition hasSyntaxErrors :: "string list \<Rightarrow> bool" where
  "hasSyntaxErrors tokens = hasSyntaxErrors_loop tokens 0 0 0 0 [] tokens"

definition improperMix :: "string list \<Rightarrow> bool" where
  \<comment> \<open>The inner loop of \<open>hasMultipleRedirectionsOrPipes\<close>: does it set \<open>errorFound\<close>?\<close>
  "improperMix tokens =
     list_ex (\<lambda>i. tokens ! i = ''|'' \<and>
                ((i > 0 \<and> (tokens ! (i - 1) = ''>'' \<or> tokens ! (i - 1) = ''<'')) \<or>
                 (i < length tokens - 1 \<and> (tokens ! (i + 1) = ''>'' \<or> tokens ! (i + 1) = ''<''))))
       [0..<length tokens]"

definition hasMultipleRedirectionsOrPipes :: "string list \<Rightarrow> bool" where
  "hasMultipleRedirectionsOrPipes tokens =
     (let redirectInCount = count_list tokens ''<'';
          redirectOutCount = count_list tokens ''>'';
          pipeCount = count_list tokens ''|''
      in if redirectInCount > 1 then True
         else if redirectOutCount > 1 then True
         else if pipeCount > 0 \<and> (redirectInCount > 0 \<or> redirectOutCount > 0)
           then improperMix tokens
         else False)"

definition isBackgroundCommand :: "string \<Rightarrow> bool" where
  "isBackgroundCommand cmd = (cmd \<noteq> [] \<and> last cmd = CHR ''&'')"

definition segment_args :: "string list \<Rightarrow> string list" where
  \<comment> \<open>The argument vector handed to \<open>execvp\<close>; its terminating null pointer is implicit.\<close>
  "segment_args segment = segment"

section \<open>The operating system as the shell uses it\<close>

text \<open>
  A descriptor table maps descriptor numbers to open file descriptions. Position \<open>n\<close> of
  the list is descriptor \<open>n\<close>; \<open>None\<close> is a closed descriptor. A new descriptor is the
  lowest closed one (POSIX). Descriptor variables of the program are C \<open>int\<close>s, \<open>-1\<close> the
  failure value, so they are \<open>int\<close> here.
\<close>

datatype oflag = O_RDONLY | O_WRONLY_CREAT_TRUNC

datatype desc =
    Inherited nat          \<comment> \<open>the stream the shell was started with on that descriptor\<close>
  | PipeRead nat           \<comment> \<open>the read end of the \<open>n\<close>-th pipe created\<close>
  | PipeWrite nat          \<comment> \<open>the write end of the \<open>n\<close>-th pipe created\<close>
  | OpenFile string oflag  \<comment> \<open>a file opened by path\<close>

type_synonym fdtable = "desc option list"

definition STDIN_FILENO :: int where "STDIN_FILENO = 0"
definition STDOUT_FILENO :: int where "STDOUT_FILENO = 1"
definition EXIT_FAILURE :: nat where "EXIT_FAILURE = 1"

definition fd_lookup :: "fdtable \<Rightarrow> int \<Rightarrow> desc option" where
  "fd_lookup t fd = (if 0 \<le> fd \<and> nat fd < length t then t ! nat fd else None)"

definition lowest_free :: "fdtable \<Rightarrow> nat" where
  "lowest_free t = length (takeWhile (\<lambda>e. e \<noteq> None) t)"

definition fd_bind :: "fdtable \<Rightarrow> nat \<Rightarrow> desc \<Rightarrow> fdtable" where
  "fd_bind t n d =
     (if n < length t then t[n := Some d]
      else t @ replicate (n - length t) None @ [Some d])"

definition fd_close :: "fdtable \<Rightarrow> int \<Rightarrow> fdtable" where
  \<comment> \<open>\<open>close\<close>; on a descriptor that is not open it fails and changes nothing.\<close>
  "fd_close t fd = (if 0 \<le> fd \<and> nat fd < length t then t[nat fd := None] else t)"

definition fd_dup :: "fdtable \<Rightarrow> int \<Rightarrow> int \<times> fdtable" where
  \<comment> \<open>\<open>dup\<close>: the new descriptor and the table, or \<open>-1\<close> when \<open>fd\<close> is not open.\<close>
  "fd_dup t fd =
     (case fd_lookup t fd of
        None \<Rightarrow> (-1, t)
      | Some d \<Rightarrow> (int (lowest_free t), fd_bind t (lowest_free t) d))"

definition fd_dup2 :: "fdtable \<Rightarrow> int \<Rightarrow> int \<Rightarrow> fdtable" where
  \<comment> \<open>\<open>dup2(oldfd, newfd)\<close>; it fails and changes nothing when \<open>oldfd\<close> is not open.\<close>
  "fd_dup2 t oldfd newfd =
     (case fd_lookup t oldfd of
        None \<Rightarrow> t
      | Some d \<Rightarrow> if newfd < 0 then t else fd_bind t (nat newfd) d)"

definition fd_pipe :: "fdtable \<Rightarrow> nat \<Rightarrow> int \<times> int \<times> fdtable" where
  \<comment> \<open>A successful \<open>pipe\<close>: \<open>fd[0]\<close>, \<open>fd[1]\<close> and the table; \<open>k\<close> names the new pipe.\<close>
  "fd_pipe t k =
     (let r = lowest_free t;
          t1 = fd_bind t r (PipeRead k);
          w = lowest_free t1
      in (int r, int w, fd_bind t1 w (PipeWrite k)))"

text \<open>
  What the program cannot decide is read from an \<open>os\<close> value: which files can be opened,
  which calls of \<open>pipe\<close> and \<open>fork\<close> fail (by the number of the call), the status
  \<open>waitpid\<close> stores for a process, and which directories \<open>chdir\<close> refuses.
\<close>

record os =
  can_open :: "string \<Rightarrow> oflag \<Rightarrow> bool"
  pipe_fails :: "nat \<Rightarrow> bool"
  fork_fails :: "nat \<Rightarrow> bool"
  wait_status :: "int \<Rightarrow> int"
  chdir_fails :: "string \<Rightarrow> bool"

definition fd_open :: "os \<Rightarrow> fdtable \<Rightarrow> string \<Rightarrow> oflag \<Rightarrow> int \<times> fdtable" where
  "fd_open os t path fl =
     (if can_open os path fl
      then (int (lowest_free t), fd_bind t (lowest_free t) (OpenFile path fl))
      else (-1, t))"

text \<open>
  A spawned process, followed up to the point where it leaves the shell's code: it calls
  \<open>execvp\<close> or \<open>exit\<close>. \<open>child_err\<close> are the diagnostics it wrote to its error stream
  before that, \<open>child_fds\<close> its descriptor table at that point.
\<close>

datatype child_end = Execvp "string list" | Exit nat

datatype spawner = Foreground | Stage nat | Background

record child =
  child_role :: spawner
  child_fds :: fdtable
  child_err :: "string list"
  child_end :: child_end

datatype event =
    Ev_prompt
  | Ev_pipe "(int \<times> int) option"
  | Ev_fork int
  | Ev_dup int int
  | Ev_dup2 int int
  | Ev_close int
  | Ev_waitpid int
  | Ev_chdir string
  | Ev_setenv string string
  | Ev_unsetenv string
  | Ev_write int string

text \<open>
  The shell process: its descriptor table, the calls of \<open>pipe\<close> and \<open>fork\<close> made so
  far, the pipes created, the processes spawned (the \<open>k\<close>-th has process id \<open>k + 1\<close>: a
  process id is not given out again while its process is unreaped) and the system calls
  made, in order.
\<close>

record shell =
  fds :: fdtable
  pipe_calls :: nat
  pipes_made :: nat
  fork_calls :: nat
  procs :: "child list"
  trace :: "event list"

definition emit :: "event \<Rightarrow> shell \<Rightarrow> shell" where
  "emit e s = s\<lparr>trace := trace s @ [e]\<rparr>"

definition sys_pipe :: "os \<Rightarrow> shell \<Rightarrow> (int \<times> int) option \<times> shell" where
  "sys_pipe os s =
     (if pipe_fails os (pipe_calls s)
      then (None, emit (Ev_pipe None) (s\<lparr>pipe_calls := pipe_calls s + 1\<rparr>))
      else (case fd_pipe (fds s) (pipes_made s) of
              (r, w, t) \<Rightarrow>
                (Some (r, w),
                 emit (Ev_pipe (Some (r, w)))
                   (s\<lparr>fds := t, pipe_calls := pipe_calls s + 1, pipes_made := pipes_made s + 1\<rparr>))))"

definition sys_fork :: "os \<Rightarrow> (fdtable \<Rightarrow> child) \<Rightarrow> shell \<Rightarrow> int \<times> shell" where
  \<comment> \<open>\<open>fork\<close> as the parent sees it: the child's process id, or \<open>-1\<close>. \<open>body\<close> is the
      code the child runs, from the descriptor table it inherits.\<close>
  "sys_fork os body s =
     (if fork_fails os (fork_calls s)
      then (-1, emit (Ev_fork (-1)) (s\<lparr>fork_calls := fork_calls s + 1\<rparr>))
      else (let pid = int (length (procs s)) + 1
            in (pid, emit (Ev_fork pid)
                  (s\<lparr>fork_calls := fork_calls s + 1, procs := procs s @ [body (fds s)]\<rparr>))))"

definition sys_dup :: "int \<Rightarrow> shell \<Rightarrow> int \<times> shell" where
  "sys_dup fd s =
     (case fd_dup (fds s) fd of (n, t) \<Rightarrow> (n, emit (Ev_dup fd n) (s\<lparr>fds := t\<rparr>)))"

definition sys_dup2 :: "int \<Rightarrow> int \<Rightarrow> shell \<Rightarrow> shell" where
  "sys_dup2 oldfd newfd s = emit (Ev_dup2 oldfd newfd) (s\<lparr>fds := fd_dup2 (fds s) oldfd newfd\<rparr>)"

definition sys_close :: "int \<Rightarrow> shell \<Rightarrow> shell" where
  "sys_close fd s = emit (Ev_close fd) (s\<lparr>fds := fd_close (fds s) fd\<rparr>)"

definition sys_waitpid :: "os \<Rightarrow> int \<Rightarrow> shell \<Rightarrow> int \<times> shell" where
  \<comment> \<open>\<open>waitpid(pid, &status, 0)\<close>: the status stored, and the shell after the wait.\<close>
  "sys_waitpid os pid s = (wait_status os pid, emit (Ev_waitpid pid) s)"

section \<open>Running one command: \<open>executeCommand\<close>\<close>

text \<open>
  Lines 96--176. The argument vector is built before the \<open>fork\<close>; the child opens the
  redirect files and binds them; the parent saves its standard descriptors, waits, and
  restores them.
\<close>

definition executeCommand_args :: "string list \<Rightarrow> string list" where
  \<comment> \<open>The tokens kept for \<open>execvp\<close>: every index but the two redirect tokens and the
      index after each.\<close>
  "executeCommand_args tokens =
     (let redirectInIndex = findTokenIndex tokens ''<'';
          redirectOutIndex = findTokenIndex tokens ''>''
      in map (\<lambda>i. tokens ! i)
           (filter (\<lambda>i. int i \<noteq> redirectInIndex \<and> int i \<noteq> redirectOutIndex \<and>
                        (redirectInIndex = -1 \<or> int i \<noteq> redirectInIndex + 1) \<and>
                        (redirectOutIndex = -1 \<or> int i \<noteq> redirectOutIndex + 1))
              [0..<length tokens]))"

definition executeCommand_child :: "os \<Rightarrow> string list \<Rightarrow> fdtable \<Rightarrow> child" where
  \<comment> \<open>The branch \<open>pid == 0\<close>.\<close>
  "executeCommand_child os tokens t =
     (let redirectInIndex = findTokenIndex tokens ''<'';
          redirectOutIndex = findTokenIndex tokens ''>'';
          input_done =
            (if redirectInIndex \<noteq> -1 \<and> redirectInIndex + 1 < int (length tokens)
             then (case fd_open os t (tokens ! nat (redirectInIndex + 1)) O_RDONLY of
                     (fd, t1) \<Rightarrow>
                       if fd = -1 then Inl t1
                       else Inr (fd_close (fd_dup2 t1 fd STDIN_FILENO) fd))
             else Inr t)
      in case input_done of
           Inl t1 \<Rightarrow>
             \<lparr>child_role = Foreground, child_fds = t1,
              child_err = [''Failed to open input redirection file''],
              child_end = Exit EXIT_FAILURE\<rparr>
         | Inr t2 \<Rightarrow>
             (if redirectOutIndex \<noteq> -1 \<and> redirectOutIndex + 1 < int (length tokens)
              then (case fd_open os t2 (tokens ! nat (redirectOutIndex + 1)) O_WRONLY_CREAT_TRUNC of
                      (fd, t3) \<Rightarrow>
                        if fd = -1
                        then \<lparr>child_role = Foreground, child_fds = t3,
                              child_err = [''Failed to open output redirection file''],
                              child_end = Exit EXIT_FAILURE\<rparr>
                        else \<lparr>child_role = Foreground,
                              child_fds = fd_close (fd_dup2 t3 fd STDOUT_FILENO) fd,
                              child_err = [],
                              child_end = Execvp (executeCommand_args tokens)\<rparr>)
              else \<lparr>child_role = Foreground, child_fds = t2, child_err = [],
                    child_end = Execvp (executeCommand_args tokens)\<rparr>))"

definition save_streams :: "string list \<Rightarrow> shell \<Rightarrow> int \<times> int \<times> shell" where
  \<comment> \<open>The parent before its wait: \<open>saved_stdout\<close>, \<open>saved_stdin\<close> and the shell.\<close>
  "save_streams tokens s =
     (let redirectInIndex = findTokenIndex tokens ''<'';
          redirectOutIndex = findTokenIndex tokens ''>''
      in case (if redirectOutIndex \<noteq> -1 then sys_dup STDOUT_FILENO s else (-1, s)) of
           (saved_stdout, s1) \<Rightarrow>
             (case (if redirectInIndex \<noteq> -1 then sys_dup STDIN_FILENO s1 else (-1, s1)) of
                (saved_stdin, s2) \<Rightarrow> (saved_stdout, saved_stdin, s2)))"

definition restore_streams :: "int \<Rightarrow> int \<Rightarrow> shell \<Rightarrow> shell" where
  \<comment> \<open>The parent after its wait.\<close>
  "restore_streams saved_stdout saved_stdin s =
     (let s1 = (if saved_stdout \<noteq> -1
                then sys_close saved_stdout (sys_dup2 saved_stdout STDOUT_FILENO s) else s)
      in if saved_stdin \<noteq> -1
         then sys_close saved_stdin (sys_dup2 saved_stdin STDIN_FILENO s1) else s1)"

text \<open>
  The result of a function of the shell process is \<open>Inr\<close> of the shell when it returns and
  \<open>Inl\<close> of the exit code and the shell when it ends the shell process with \<open>exit\<close>.
\<close>

definition executeCommand :: "os \<Rightarrow> string list \<Rightarrow> shell \<Rightarrow> (nat \<times> shell) + shell" where
  "executeCommand os tokens s =
     (case sys_fork os (executeCommand_child os tokens) s of
        (pid, s1) \<Rightarrow>
          if pid = -1 then Inl (EXIT_FAILURE, emit (Ev_write 2 ''Failed to fork process'') s1)
          else (case save_streams tokens s1 of
                  (saved_stdout, saved_stdin, s2) \<Rightarrow>
                    (case sys_waitpid os pid s2 of
                       (status, s3) \<Rightarrow> Inr (restore_streams saved_stdout saved_stdin s3))))"

section \<open>Running a pipeline: \<open>executePipedCommand\<close>\<close>

text \<open>
  Lines 182--289: the tokens are cut at the pipe symbols, each stage gets a pipe (all but
  the last) and a process, and the parent waits for all of them at the end.
\<close>

function splitCommands :: "string list \<Rightarrow> string list list" where
  \<comment> \<open>The \<open>while\<close> loop that cuts the tokens at each pipe symbol; the argument is the
      range from \<open>startIt\<close> to the end.\<close>
  "splitCommands ts =
     (if ts = [] then []
      else (case dropWhile (\<lambda>t. t \<noteq> ''|'') ts of
              [] \<Rightarrow> [takeWhile (\<lambda>t. t \<noteq> ''|'') ts]
            | p # after \<Rightarrow> takeWhile (\<lambda>t. t \<noteq> ''|'') ts # splitCommands after))"
  by pat_completeness auto
termination
proof (relation "measure length")
  show "wf (measure length)" by simp
next
  fix ts :: "string list" and p after
  assume "dropWhile (\<lambda>t. t \<noteq> ''|'') ts = p # after"
  then have "length (dropWhile (\<lambda>t. t \<noteq> ''|'') ts) = Suc (length after)" by simp
  moreover have "length (dropWhile (\<lambda>t. t \<noteq> ''|'') ts) \<le> length ts"
    by (rule length_dropWhile_le)
  ultimately show "(after, ts) \<in> measure length" by simp
qed

declare splitCommands.simps [simp del]

definition erase :: "'a list \<Rightarrow> nat \<Rightarrow> nat \<Rightarrow> 'a list" where
  \<comment> \<open>\<open>v.erase(v.begin() + a, v.begin() + b)\<close> for \<open>a \<le> b \<le> v.size()\<close>.\<close>
  "erase v a b = take a v @ drop b v"

definition piped_input_redirect ::
  "os \<Rightarrow> string list \<Rightarrow> int \<Rightarrow> fdtable \<Rightarrow> int \<times> string list \<times> string list \<times> fdtable" where
  \<comment> \<open>The block \<open>if (i == 0)\<close> of the child: the new \<open>in_fd\<close>, the new \<open>commands[i]\<close>,
      the diagnostics written, and the descriptor table. The \<open>exit\<close> after a failed
      \<open>open\<close> is commented out in the source, so the child goes on.\<close>
  "piped_input_redirect os cmd in_fd t =
     (let redirectInIndex = findTokenIndex cmd ''<''
      in if redirectInIndex \<noteq> -1 \<and> redirectInIndex + 1 < int (length cmd)
         then (case fd_open os t (cmd ! nat (redirectInIndex + 1)) O_RDONLY of
                 (in_fd', t1) \<Rightarrow>
                   (in_fd',
                    erase cmd (nat redirectInIndex) (nat redirectInIndex + 2),
                    (if in_fd' = -1 then [''syntax error, unexpected PIPE, expecting STRING'']
                     else []),
                    fd_close (fd_dup2 t1 in_fd' STDIN_FILENO) in_fd'))
         else (in_fd, cmd, [], t))"

definition piped_pipe_ends ::
  "nat \<Rightarrow> nat \<Rightarrow> int \<Rightarrow> (int \<times> int) option \<Rightarrow> fdtable \<Rightarrow> fdtable" where
  \<comment> \<open>The child's blocks \<open>if (in_fd != STDIN_FILENO)\<close> and \<open>if (i < commands.size() - 1)\<close>,
      for \<open>n\<close> commands. \<open>fd\<close> is the array \<open>fd[2]\<close>: \<open>None\<close> while no \<open>pipe\<close> call
      has filled it (the last stage, which never reads it).\<close>
  "piped_pipe_ends i n in_fd fd t1 =
     (let t2 = (if in_fd \<noteq> STDIN_FILENO
                then fd_close (fd_dup2 t1 in_fd STDIN_FILENO) in_fd else t1)
      in if i < n - 1
         then (case fd of
                 Some (fd0, fd1) \<Rightarrow> fd_close (fd_close (fd_dup2 t2 fd1 STDOUT_FILENO) fd0) fd1
               | None \<Rightarrow> t2)
         else t2)"

definition piped_output_redirect ::
  "os \<Rightarrow> bool \<Rightarrow> string list \<Rightarrow> fdtable \<Rightarrow> fdtable \<times> string list \<times> child_end" where
  \<comment> \<open>The child's block \<open>if (i == commands.size() - 1)\<close> and its \<open>execvp\<close>: the
      descriptor table, the diagnostics written, and how the child leaves the shell's code.\<close>
  "piped_output_redirect os is_last cmd t3 =
     (let redirectOutIndex = findTokenIndex cmd ''>''
      in if is_last \<and> redirectOutIndex \<noteq> -1 \<and> redirectOutIndex + 1 < int (length cmd)
         then (case fd_open os t3 (cmd ! nat (redirectOutIndex + 1)) O_WRONLY_CREAT_TRUNC of
                 (out_fd, t4) \<Rightarrow>
                   if out_fd = -1
                   then (t4, [''open for output redirection failed''], Exit EXIT_FAILURE)
                   else (fd_close (fd_dup2 t4 out_fd STDOUT_FILENO) out_fd, [],
                         Execvp (segment_args
                           (erase cmd (nat redirectOutIndex) (nat redirectOutIndex + 2)))))
         else (t3, [], Execvp (segment_args cmd)))"

definition piped_child ::
  "os \<Rightarrow> string list list \<Rightarrow> nat \<Rightarrow> int \<Rightarrow> (int \<times> int) option \<Rightarrow> fdtable \<Rightarrow> child" where
  \<comment> \<open>The branch \<open>pid == 0\<close> of stage \<open>i\<close>, from the descriptor table it inherits.\<close>
  "piped_child os commands i in_fd fd t =
     (case (if i = 0 then piped_input_redirect os (commands ! i) in_fd t
            else (in_fd, commands ! i, [], t)) of
        (in_fd1, cmd, err, t1) \<Rightarrow>
          (case piped_output_redirect os (i = length commands - 1) cmd
                  (piped_pipe_ends i (length commands) in_fd1 fd t1) of
             (t4, err', e) \<Rightarrow>
               \<lparr>child_role = Stage i, child_fds = t4, child_err = err @ err', child_end = e\<rparr>))"

record locals =
  in_fd :: int
  fds_vec :: "int list"
  child_pids :: "int list"

definition pipe_setup ::
  "os \<Rightarrow> bool \<Rightarrow> locals \<Rightarrow> shell \<Rightarrow> (nat \<times> shell) + ((int \<times> int) option \<times> locals \<times> shell)" where
  \<comment> \<open>\<open>if (i < commands.size() - 1 && pipe(fd) == -1) { if (pipe(fd) == -1) exit; push fd }\<close>\<close>
  "pipe_setup os not_last l s =
     (if not_last then
        (case sys_pipe os s of
           (Some fd, s1) \<Rightarrow> Inr (Some fd, l, s1)
         | (None, s1) \<Rightarrow>
             (case sys_pipe os s1 of
                (None, s2) \<Rightarrow> Inl (EXIT_FAILURE, emit (Ev_write 2 ''pipe'') s2)
              | (Some (fd0, fd1), s2) \<Rightarrow>
                  Inr (Some (fd0, fd1), l\<lparr>fds_vec := fds_vec l @ [fd0, fd1]\<rparr>, s2)))
      else Inr (None, l, s))"

definition executePipedCommand_stage ::
  "os \<Rightarrow> string list list \<Rightarrow> nat \<Rightarrow> locals \<Rightarrow> shell \<Rightarrow> (nat \<times> shell) + (locals \<times> shell)" where
  \<comment> \<open>The body of the \<open>for\<close> loop over the stages, for one value of \<open>i\<close>, as the
      parent runs it.\<close>
  "executePipedCommand_stage os commands i l s =
     (case pipe_setup os (i < length commands - 1) l s of
        Inl e \<Rightarrow> Inl e
      | Inr (fd, l1, s1) \<Rightarrow>
          (case sys_fork os (piped_child os commands i (in_fd l1) fd) s1 of
             (pid, s2) \<Rightarrow>
               if pid = -1 then Inl (EXIT_FAILURE, emit (Ev_write 2 ''fork'') s2)
               else
                 (let l2 = l1\<lparr>child_pids := child_pids l1 @ [pid]\<rparr>;
                      s3 = (if in_fd l2 \<noteq> STDIN_FILENO then sys_close (in_fd l2) s2 else s2)
                  in if i < length commands - 1
                     then (case fd of
                             Some (fd0, fd1) \<Rightarrow> Inr (l2\<lparr>in_fd := fd0\<rparr>, sys_close fd1 s3)
                           | None \<Rightarrow> Inr (l2, s3))
                     else Inr (l2, s3))))"

fun executePipedCommand_loop ::
  "os \<Rightarrow> string list list \<Rightarrow> nat list \<Rightarrow> locals \<Rightarrow> shell \<Rightarrow> (nat \<times> shell) + (locals \<times> shell)" where
  \<comment> \<open>The \<open>for\<close> loop; the list holds the values of \<open>i\<close> still to run.\<close>
  "executePipedCommand_loop os commands [] l s = Inr (l, s)"
| "executePipedCommand_loop os commands (i # rest) l s =
     (case executePipedCommand_stage os commands i l s of
        Inl e \<Rightarrow> Inl e
      | Inr (l', s') \<Rightarrow> executePipedCommand_loop os commands rest l' s')"

definition wait_all :: "os \<Rightarrow> int list \<Rightarrow> shell \<Rightarrow> shell" where
  \<comment> \<open>\<open>for (pid_t pid : child_pids) { int status; waitpid(pid, &status, 0); }\<close>: each
      status is stored in the local \<open>status\<close> and dropped.\<close>
  "wait_all os pids s = fold (\<lambda>pid s'. snd (sys_waitpid os pid s')) pids s"

definition executePipedCommand :: "os \<Rightarrow> string list \<Rightarrow> shell \<Rightarrow> (nat \<times> shell) + shell" where
  "executePipedCommand os tokens s =
     (let commands = splitCommands tokens
      in case executePipedCommand_loop os commands [0..<length commands]
                \<lparr>in_fd = STDIN_FILENO, fds_vec = [], child_pids = []\<rparr> s of
           Inl e \<Rightarrow> Inl e
         | Inr (l, s1) \<Rightarrow> Inr (wait_all os (child_pids l) (fold sys_close (fds_vec l) s1)))"

section \<open>Background commands and the control loop\<close>

text \<open>
  \<open>executeCommandInBackground\<close> (lines 335--343), \<open>handleVariableAssignment\<close>
  (lines 315--329) and the command loop of \<open>main\<close> (lines 444--526). The prompt is
  recorded without its text (the current directory).
\<close>

definition executeCommandInBackground :: "os \<Rightarrow> string list \<Rightarrow> shell \<Rightarrow> shell" where
  \<comment> \<open>\<open>fork\<close>, and nothing in the parent: the process id is compared with \<open>0\<close> only.\<close>
  "executeCommandInBackground os tokens s =
     snd (sys_fork os
            (\<lambda>t. \<lparr>child_role = Background, child_fds = t, child_err = [],
                  child_end = Execvp (segment_args tokens)\<rparr>) s)"

definition handleVariableAssignment :: "string \<Rightarrow> shell \<Rightarrow> shell" where
  "handleVariableAssignment input s =
     (if CHR ''='' \<in> set input then
        (let varName = takeWhile (\<lambda>c. c \<noteq> CHR ''='') input;
             val = drop 1 (dropWhile (\<lambda>c. c \<noteq> CHR ''='') input)
         in if varName = ''PATH'' \<and> val = [] then emit (Ev_unsetenv ''PATH'') s
            else emit (Ev_setenv varName val) s)
      else emit (Ev_write 2 ''Invalid assignment format.'') s)"

definition dispatch :: "os \<Rightarrow> string \<Rightarrow> string list \<Rightarrow> shell \<Rightarrow> (nat \<times> shell) + shell" where
  \<comment> \<open>The end of the loop body of \<open>main\<close>, from \<open>int pipeIndex\<close> on; \<open>tokens\<close> is not
      empty there.\<close>
  "dispatch os input tokens s =
     (let pipeIndex = findTokenIndex tokens ''|'';
          redirectOutIndex = findTokenIndex tokens ''>'';
          redirectInIndex = findTokenIndex tokens ''<''
      in if pipeIndex \<noteq> -1 then executePipedCommand os tokens s
         else if redirectOutIndex \<noteq> -1 \<or> redirectInIndex \<noteq> -1 then executeCommand os tokens s
         else if tokens ! 0 = ''cd'' then
           (if length tokens = 2 then
              (if chdir_fails os (tokens ! 1)
               then Inr (emit (Ev_write 2 ''cd failed'') (emit (Ev_chdir (tokens ! 1)) s))
               else Inr (emit (Ev_chdir (tokens ! 1)) s))
            else Inr (emit (Ev_write 2 ''Usage: cd <directory>'') s))
         else if tokens ! 0 = ''ls'' \<and> length tokens = 2 \<and> tokens ! 1 = ''-al''
           then executeCommand os tokens s
         else if tokens ! 0 = ''ls'' then executeCommand os tokens s
         else if tokens ! 0 = ''rm'' then Inr s
         else if tokens ! 0 = ''clear'' then
           Inr (emit (Ev_write 1 [CHR 0x1B, CHR ''['', CHR ''H'',
                                  CHR 0x1B, CHR ''['', CHR ''2'', CHR ''J'']) s)
         else if tokens ! 0 = ''emacs'' then executeCommand os tokens s
         else if CHR ''='' \<in> set input then Inr (handleVariableAssignment input s)
         else executeCommand os tokens s)"

definition mish_line :: "os \<Rightarrow> string \<Rightarrow> shell \<Rightarrow> (nat \<times> shell) + shell" where
  \<comment> \<open>The loop body of \<open>main\<close> for one line read; \<open>Inl (0, s)\<close> is the \<open>break\<close> that
      leads to \<open>return 0\<close>.\<close>
  "mish_line os line s =
     (if line = ''exit'' then Inl (0, s)
      else (let input = checkWhiteSpaces line;
                tokens = tokenize input
            in if tokens = [] then Inr s
               else if hasMultipleRedirectionsOrPipes tokens then Inr s
               else if hasSyntaxErrors tokens then Inr s
               else if isBackgroundCommand input
                 then dispatch os (butlast input) tokens (executeCommandInBackground os tokens s)
               else dispatch os input tokens s))"

fun mish_loop :: "os \<Rightarrow> string list \<Rightarrow> shell \<Rightarrow> nat \<times> shell" where
  \<comment> \<open>The command loop on the lines standard input holds; at its end \<open>getline\<close> fails
      with end of file and \<open>main\<close> returns \<open>0\<close>.\<close>
  "mish_loop os [] s = (0, emit Ev_prompt s)"
| "mish_loop os (line # rest) s =
     (case mish_line os line (emit Ev_prompt s) of
        Inl e \<Rightarrow> e
      | Inr s' \<Rightarrow> mish_loop os rest s')"

definition shell0 :: shell where
  \<comment> \<open>A shell started with its three standard streams open and nothing else.\<close>
  "shell0 = \<lparr>fds = [Some (Inherited 0), Some (Inherited 1), Some (Inherited 2)],
             pipe_calls = 0, pipes_made = 0, fork_calls = 0, procs = [], trace = []\<rparr>"

definition os_ok :: os where
  \<comment> \<open>An operating system on which every call succeeds and every process ends with status 0.\<close>
  "os_ok = \<lparr>can_open = (\<lambda>path fl. True), pipe_fails = (\<lambda>n. False),
            fork_fails = (\<lambda>n. False), wait_status = (\<lambda>pid. 0),
            chdir_fails = (\<lambda>dir. False)\<rparr>"

section \<open>Notions used to state the properties\<close>

definition is_operator :: "char \<Rightarrow> bool" where
  "is_operator c = (c \<in> set ''|<>&'')"

text \<open>
  Two lines are variants when one is obtained from the other by adding or removing
  whitespace characters next to an operator character, any number of times.
\<close>

inductive ws_variant :: "string \<Rightarrow> string \<Rightarrow> bool" where
  same: "ws_variant s s"
| space_before: "isspace_c w \<Longrightarrow> is_operator c \<Longrightarrow> ws_variant (xs @ c # ys) (xs @ w # c # ys)"
| space_after: "isspace_c w \<Longrightarrow> is_operator c \<Longrightarrow> ws_variant (xs @ c # ys) (xs @ c # w # ys)"
| swap: "ws_variant s t \<Longrightarrow> ws_variant t s"
| chain: "ws_variant s t \<Longrightarrow> ws_variant t u \<Longrightarrow> ws_variant s u"

text \<open>
  The tokens of a raw line read directly: whitespace separates, and every special
  character is a token by itself.
\<close>

fun lex_from :: "string \<Rightarrow> string \<Rightarrow> string list" where
  "lex_from word [] = (if word = [] then [] else [word])"
| "lex_from word (c # cs) =
     (if isspace_c c then (if word = [] then [] else [word]) @ lex_from [] cs
      else if strchr_found specialChars c
        then (if word = [] then [] else [word]) @ [[c]] @ lex_from [] cs
      else lex_from (word @ [c]) cs)"

definition rejected :: "string list \<Rightarrow> bool" where
  \<comment> \<open>The line is discarded by one of the two checks of \<open>main\<close>.\<close>
  "rejected tokens = (hasMultipleRedirectionsOrPipes tokens \<or> hasSyntaxErrors tokens)"

definition is_redirect :: "string \<Rightarrow> bool" where
  "is_redirect t = (t = ''<'' \<or> t = ''>'')"

definition redirect_beside_pipe :: "string list \<Rightarrow> bool" where
  \<comment> \<open>Some redirect token stands immediately after or immediately before a pipe token.\<close>
  "redirect_beside_pipe tokens =
     list_ex (\<lambda>i. is_redirect (tokens ! i) \<and>
                ((0 < i \<and> tokens ! (i - 1) = ''|'') \<or>
                 (i + 1 < length tokens \<and> tokens ! (i + 1) = ''|'')))
       [0..<length tokens]"

definition redirect_first :: "string list \<Rightarrow> bool" where
  \<comment> \<open>The first token is a redirect token.\<close>
  "redirect_first tokens = (tokens \<noteq> [] \<and> is_redirect (tokens ! 0))"

definition pipe_misplaced :: "string list \<Rightarrow> bool" where
  \<comment> \<open>Some pipe token stands first, last, or immediately after a pipe token.\<close>
  "pipe_misplaced tokens =
     list_ex (\<lambda>i. tokens ! i = ''|'' \<and>
                (i = 0 \<or> i = length tokens - 1 \<or> tokens ! (i - 1) = ''|''))
       [0..<length tokens]"

definition bad_at :: "string list \<Rightarrow> nat \<Rightarrow> bool" where
  \<comment> \<open>What \<open>hasSyntaxErrors\<close> objects to at index \<open>i\<close>.\<close>
  "bad_at tokens i =
     ((tokens ! i = ''<'' \<and>
         (i = 0 \<or> tokens ! (i - 1) = ''|'' \<or> ''<'' \<in> set (take i tokens))) \<or>
      (tokens ! i = ''>'' \<and>
         (i = 0 \<or> tokens ! (i - 1) = ''|'' \<or> ''>'' \<in> set (take i tokens))) \<or>
      (tokens ! i = ''|'' \<and>
         (i = 0 \<or> i = length tokens - 1 \<or> tokens ! (i - 1) = ''|'')))"


definition executeCommand_waiting :: "os \<Rightarrow> string list \<Rightarrow> shell \<Rightarrow> shell" where
  \<comment> \<open>The shell at the moment \<open>executeCommand\<close> blocks in \<open>waitpid\<close>.\<close>
  "executeCommand_waiting os tokens s =
     snd (snd (save_streams tokens (snd (sys_fork os (executeCommand_child os tokens) s))))"

definition waited_pids :: "event list \<Rightarrow> int list" where
  "waited_pids evs = concat (map (\<lambda>e. case e of Ev_waitpid pid \<Rightarrow> [pid] | _ \<Rightarrow> []) evs)"

definition forked_pids :: "event list \<Rightarrow> int list" where
  \<comment> \<open>The process ids of the successful calls of \<open>fork\<close>.\<close>
  "forked_pids evs =
     concat (map (\<lambda>e. case e of Ev_fork pid \<Rightarrow> (if pid = -1 then [] else [pid]) | _ \<Rightarrow> []) evs)"

definition advances :: "shell \<Rightarrow> shell \<Rightarrow> child list \<Rightarrow> event list \<Rightarrow> nat \<Rightarrow> bool" where
  \<comment> \<open>\<open>s'\<close> comes from \<open>s\<close> by spawning \<open>cs\<close>, making the calls \<open>evs\<close> and
      creating \<open>p\<close> pipes.\<close>
  "advances s s' cs evs p =
     (procs s' = procs s @ cs \<and> trace s' = trace s @ evs \<and> pipes_made s' = pipes_made s + p)"

definition new_pids :: "nat \<Rightarrow> nat \<Rightarrow> int list" where
  \<comment> \<open>The process ids of the next \<open>n\<close> processes when \<open>p\<close> were spawned before.\<close>
  "new_pids p n = map (\<lambda>k. int (p + k) + 1) [0..<n]"

definition final :: "(nat \<times> shell) + shell \<Rightarrow> shell" where
  \<comment> \<open>The shell when a function of the shell process is left, by return or by \<open>exit\<close>.\<close>
  "final r = (case r of Inl (code, s) \<Rightarrow> s | Inr s \<Rightarrow> s)"

definition only_own_waits :: "shell \<Rightarrow> shell \<Rightarrow> bool" where
  \<comment> \<open>Between \<open>s\<close> and \<open>s'\<close> the shell only spawned and made calls, and every process
      it waited for was spawned in between and is not a background process.\<close>
  "only_own_waits s s' =
     (\<exists>cs evs p. advances s s' cs evs p \<and>
        list_all (\<lambda>pid. int (length (procs s)) < pid \<and> pid \<le> int (length (procs s')) \<and>
                        child_role (procs s' ! nat (pid - 1)) \<noteq> Background)
          (waited_pids evs))"

definition wired :: "fdtable \<Rightarrow> nat \<Rightarrow> nat \<Rightarrow> locals \<Rightarrow> shell \<Rightarrow> bool" where
  \<comment> \<open>The state of the parent before stage \<open>i\<close> of a pipeline that started with the
      descriptor table \<open>T0\<close> when \<open>M0\<close> pipes existed: beyond \<open>T0\<close> the parent holds
      the read end of the pipe created last, in \<open>in_fd\<close>, and nothing else.\<close>
  "wired T0 M0 i l s =
     (pipes_made s = M0 + i \<and>
      (if i = 0 then in_fd l = STDIN_FILENO \<and> fd_lookup (fds s) = fd_lookup T0
       else in_fd l \<noteq> 0 \<and> in_fd l \<noteq> 1 \<and> fd_lookup T0 (in_fd l) = None \<and>
            fd_lookup (fds s) = (fd_lookup T0)(in_fd l := Some (PipeRead (M0 + i - 1)))))"



section \<open>Normalisation makes operator spacing irrelevant\<close>

lemma special_not_space: "strchr_found specialChars c \<Longrightarrow> \<not> isspace_c c"
  by (auto simp: strchr_found_def specialChars_def isspace_c_def)

lemma operator_special: "is_operator c \<Longrightarrow> strchr_found specialChars c"
  by (simp add: is_operator_def strchr_found_def specialChars_def)

lemma isspace_blank: "isspace_c CHR '' ''"
  by (simp add: isspace_c_def)

text \<open>
  While the normalised text is split, a word is pending only if the character read last
  was not whitespace; then the split of the normalised text is the direct reading.
\<close>

lemma tokenize_normalised:
  "word = [] \<or> (seen \<noteq> [] \<and> \<not> isspace_c (last seen)) \<Longrightarrow>
   tokenize_from word (checkWhiteSpaces_loop seen s) = lex_from word s"
proof (induction s arbitrary: word seen)
  case Nil
  then show ?case by simp
next
  case (Cons c s)
  show ?case
  proof (cases "strchr_found specialChars c")
    case False
    then show ?thesis
      using Cons.prems Cons.IH[of "[]" "seen @ [c]"] Cons.IH[of "word @ [c]" "seen @ [c]"]
      by simp
  next
    case True
    then have ns: "\<not> isspace_c c" by (rule special_not_space)
    show ?thesis
    proof (cases s)
      case Nil
      then show ?thesis using True ns Cons.prems by (auto simp: isspace_blank)
    next
      case (Cons n r)
      show ?thesis
      proof (cases "isspace_c n")
        case sp: True
        have "tokenize_from [c] (checkWhiteSpaces_loop (seen @ [c]) s) = lex_from [c] s"
          using Cons.IH[of "[c]" "seen @ [c]"] ns by simp
        then show ?thesis using True ns Cons.prems Cons sp
          by (auto simp: isspace_blank)
      next
        case nsp: False
        have "tokenize_from [] (checkWhiteSpaces_loop (seen @ [c]) s) = lex_from [] s"
          using Cons.IH[of "[]" "seen @ [c]"] by simp
        then show ?thesis using True ns Cons.prems Cons nsp
          by (auto simp: isspace_blank)
      qed
    qed
  qed
qed

lemma tokenize_checkWhiteSpaces: "tokenize (checkWhiteSpaces s) = lex_from [] s"
  by (simp add: tokenize_def checkWhiteSpaces_def tokenize_normalised)

lemma lex_space_before:
  "isspace_c w \<Longrightarrow> strchr_found specialChars c \<Longrightarrow>
   lex_from word (xs @ w # c # ys) = lex_from word (xs @ c # ys)"
  by (induction xs arbitrary: word) (auto dest: special_not_space)

lemma lex_space_after:
  "isspace_c w \<Longrightarrow> strchr_found specialChars c \<Longrightarrow>
   lex_from word (xs @ c # w # ys) = lex_from word (xs @ c # ys)"
  by (induction xs arbitrary: word) (auto dest: special_not_space)

text \<open>
  C9. Two raw lines that differ only in whitespace next to the operator characters
  \<open>|\<close>, \<open><\<close>, \<open>>\<close>, \<open>&\<close> give the same token sequence once \<open>checkWhiteSpaces\<close> has
  normalised them and \<open>tokenize\<close> has split them.
\<close>

theorem normalise_adjacent_whitespace:
  "ws_variant s t \<Longrightarrow> tokenize (checkWhiteSpaces s) = tokenize (checkWhiteSpaces t)"
proof (induction rule: ws_variant.induct)
  case (space_before w c xs ys)
  then show ?case
    by (simp add: tokenize_checkWhiteSpaces lex_space_before operator_special)
next
  case (space_after w c xs ys)
  then show ?case
    by (simp add: tokenize_checkWhiteSpaces lex_space_after operator_special)
qed simp_all

theorem normalise_adjacent_whitespace_witness:
  "ws_variant ''a|b'' ''a | b'' \<and>
   tokenize (checkWhiteSpaces ''a|b'') = [''a'', ''|'', ''b''] \<and>
   tokenize (checkWhiteSpaces ''a | b'') = [''a'', ''|'', ''b'']"
proof -
  have sp: "isspace_c CHR '' ''" by (simp add: isspace_c_def)
  have op: "is_operator CHR ''|''" by (simp add: is_operator_def)
  have "ws_variant (''a'' @ CHR ''|'' # ''b'') (''a'' @ CHR '' '' # CHR ''|'' # ''b'')"
    using sp op by (rule ws_variant.space_before)
  moreover
  have "ws_variant (''a '' @ CHR ''|'' # ''b'') (''a '' @ CHR ''|'' # CHR '' '' # ''b'')"
    using sp op by (rule ws_variant.space_after)
  ultimately have v: "ws_variant ''a|b'' ''a | b''"
    using ws_variant.chain by simp
  have l: "tokenize (checkWhiteSpaces ''a|b'') = [''a'', ''|'', ''b'']"
    by (simp add: tokenize_def checkWhiteSpaces_def strchr_found_def specialChars_def
        isspace_c_def)
  show ?thesis using v l normalise_adjacent_whitespace[OF v] by simp
qed

section \<open>Facts about the token utilities and the descriptor table\<close>


lemma findTokenIndex_range: "-1 \<le> findTokenIndex ts x \<and> findTokenIndex ts x < int (length ts)"
  by (induction ts) (auto simp: Let_def)

lemma findTokenIndex_found:
  "findTokenIndex ts x \<noteq> -1 \<Longrightarrow> ts ! nat (findTokenIndex ts x) = x"
proof (induction ts)
  case Nil
  then show ?case by simp
next
  case (Cons t ts)
  show ?case
  proof (cases "t = x")
    case True
    then show ?thesis by simp
  next
    case False
    with Cons.prems have ne: "findTokenIndex ts x \<noteq> -1" by (auto simp: Let_def split: if_splits)
    moreover have "0 \<le> findTokenIndex ts x" using findTokenIndex_range[of ts x] ne by linarith
    ultimately show ?thesis using False Cons.IH
      by (simp add: Let_def nat_add_distrib)
  qed
qed



lemma count_pos_mem: "x \<in> set xs \<Longrightarrow> 0 < count_list xs x"
  using count_list_0_iff[of xs x] by simp

lemma fd_lookup_negative: "m < 0 \<Longrightarrow> fd_lookup t m = None"
  by (simp add: fd_lookup_def)

lemma fd_lookup_bind:
  "fd_lookup (fd_bind t n d) m = (if m = int n then Some d else fd_lookup t m)"
  by (auto simp: fd_lookup_def fd_bind_def nth_append nth_Cons' nat_less_iff)

lemma fd_lookup_close:
  "fd_lookup (fd_close t fd) m = (if m = fd then None else fd_lookup t m)"
  by (auto simp: fd_lookup_def fd_close_def nth_list_update)

lemma lowest_free_free: "fd_lookup t (int (lowest_free t)) = None"
proof -
  have "lowest_free t < length t \<Longrightarrow> t ! lowest_free t = None"
    unfolding lowest_free_def using nth_length_takeWhile[of "\<lambda>e. e \<noteq> None" t] by simp
  then show ?thesis by (simp add: fd_lookup_def)
qed

lemma fd_lookup_dup2:
  "fd_lookup (fd_dup2 t old new) m =
     (case fd_lookup t old of
        None \<Rightarrow> fd_lookup t m
      | Some d \<Rightarrow> if new < 0 then fd_lookup t m
                  else if m = new then Some d else fd_lookup t m)"
  by (auto simp: fd_dup2_def fd_lookup_bind split: option.splits)

section \<open>A background line is run a second time in the foreground\<close>

text \<open>
  C1. A line whose last token is the background marker should return to the prompt
  without any foreground wait. On \<open>sleep 5 &\<close> the loop body spawns the background process
  (process 1) and then, since nothing ends the iteration there, runs the same tokens
  through \<open>executeCommand\<close>: a second process is spawned and waited for.
\<close>

theorem background_line_is_waited_for:
  "mish_line os_ok ''sleep 5 &'' shell0 =
   Inr \<lparr>fds = [Some (Inherited 0), Some (Inherited 1), Some (Inherited 2)],
        pipe_calls = 0, pipes_made = 0, fork_calls = 2,
        procs =
          [\<lparr>child_role = Background,
              child_fds = [Some (Inherited 0), Some (Inherited 1), Some (Inherited 2)],
              child_err = [], child_end = Execvp [''sleep'', ''5'', ''&'']\<rparr>,
           \<lparr>child_role = Foreground,
              child_fds = [Some (Inherited 0), Some (Inherited 1), Some (Inherited 2)],
              child_err = [], child_end = Execvp [''sleep'', ''5'', ''&'']\<rparr>],
        trace = [Ev_fork 1, Ev_fork 2, Ev_waitpid 2]\<rparr>"
  by code_simp

section \<open>Redirect tokens on the wrong stage\<close>

subsection \<open>What \<open>hasSyntaxErrors\<close> objects to\<close>

lemma count_take_pos: "0 < count_list xs x \<longleftrightarrow> x \<in> set xs"
  using count_list_0_iff[of xs x] by auto

lemma loop_step:
  "hasSyntaxErrors_loop tokens i a b c prev (t # rest) =
     ((t = ''<'' \<and> (i = 0 \<or> tokens ! (i - 1) = ''|'' \<or> 0 < a)) \<or>
      (t = ''>'' \<and> (i = 0 \<or> tokens ! (i - 1) = ''|'' \<or> 0 < b)) \<or>
      (t = ''|'' \<and> (prev = ''|'' \<or> i = 0 \<or> i = length tokens - 1)) \<or>
      hasSyntaxErrors_loop tokens (Suc i)
        (if t = ''<'' then a + 1 else a) (if t = ''>'' then b + 1 else b)
        (if t = ''|'' then c + 1 else c) t rest)"
  by (cases "t = ''<''"; cases "t = ''>''"; cases "t = ''|''") auto

lemma loop_characterised:
  "rest = drop i tokens \<Longrightarrow> i \<le> length tokens \<Longrightarrow>
   a = int (count_list (take i tokens) ''<'') \<Longrightarrow>
   b = int (count_list (take i tokens) ''>'') \<Longrightarrow>
   prev = (if i = 0 then [] else tokens ! (i - 1)) \<Longrightarrow>
   hasSyntaxErrors_loop tokens i a b c prev rest \<longleftrightarrow>
     (\<exists>k. i \<le> k \<and> k < length tokens \<and> bad_at tokens k)"
proof (induction rest arbitrary: i a b c prev)
  case Nil
  then have "i = length tokens" by simp
  then show ?case by simp
next
  case (Cons t rest)
  have il: "i < length tokens" using Cons.prems(1,2)
    by (metis drop_all leI list.distinct(1))
  have t: "t = tokens ! i" and rest: "rest = drop (Suc i) tokens"
    using Cons.prems(1) il by (simp_all add: Cons_nth_drop_Suc[symmetric])
  have tk: "take (Suc i) tokens = take i tokens @ [t]"
    using il t by (simp add: take_Suc_conv_app_nth)
  let ?a = "if t = ''<'' then a + 1 else a"
  let ?b = "if t = ''>'' then b + 1 else b"
  let ?c = "if t = ''|'' then c + 1 else c"
  have a': "?a = int (count_list (take (Suc i) tokens) ''<'')"
    using Cons.prems(3) by (simp add: tk)
  have b': "?b = int (count_list (take (Suc i) tokens) ''>'')"
    using Cons.prems(4) by (simp add: tk)
  have p': "t = (if Suc i = 0 then [] else tokens ! (Suc i - 1))" using t by simp
  have ih: "hasSyntaxErrors_loop tokens (Suc i) ?a ?b ?c t rest \<longleftrightarrow>
     (\<exists>k. Suc i \<le> k \<and> k < length tokens \<and> bad_at tokens k)"
    using Cons.IH[OF rest _ a' b' p'] il by simp
  have apos: "0 < a \<longleftrightarrow> ''<'' \<in> set (take i tokens)"
    using Cons.prems(3) count_take_pos[of "take i tokens" "''<''"] by simp
  have bpos: "0 < b \<longleftrightarrow> ''>'' \<in> set (take i tokens)"
    using Cons.prems(4) count_take_pos[of "take i tokens" "''>''"] by simp
  have here: "((t = ''<'' \<and> (i = 0 \<or> tokens ! (i - 1) = ''|'' \<or> 0 < a)) \<or>
      (t = ''>'' \<and> (i = 0 \<or> tokens ! (i - 1) = ''|'' \<or> 0 < b)) \<or>
      (t = ''|'' \<and> (prev = ''|'' \<or> i = 0 \<or> i = length tokens - 1))) \<longleftrightarrow> bad_at tokens i"
    unfolding bad_at_def apos bpos using t Cons.prems(5) by auto
  have split: "(\<exists>k. i \<le> k \<and> k < length tokens \<and> bad_at tokens k) \<longleftrightarrow>
        bad_at tokens i \<or> (\<exists>k. Suc i \<le> k \<and> k < length tokens \<and> bad_at tokens k)"
    using il by (metis Suc_leD Suc_leI le_neq_implies_less order_refl)
  show ?case
    unfolding loop_step split using here ih by blast
qed

lemma hasSyntaxErrors_iff:
  "hasSyntaxErrors tokens \<longleftrightarrow> (\<exists>k<length tokens. bad_at tokens k)"
  unfolding hasSyntaxErrors_def
  using loop_characterised[of tokens 0 tokens 0 0 "[]" 0] by simp

subsection \<open>The lines the two checks discard\<close>

lemma list_ex_upt: "list_ex P [0..<n] \<longleftrightarrow> (\<exists>i<n. P i)"
  by (auto simp: list_ex_iff)

lemma improperMix_iff: "improperMix tokens \<longleftrightarrow> redirect_beside_pipe tokens"
proof
  assume "improperMix tokens"
  then obtain i where i: "i < length tokens" and p: "tokens ! i = ''|''"
    and adj: "(0 < i \<and> is_redirect (tokens ! (i - 1))) \<or>
              (i < length tokens - 1 \<and> is_redirect (tokens ! (i + 1)))"
    unfolding improperMix_def list_ex_upt is_redirect_def by blast
  from adj show "redirect_beside_pipe tokens"
  proof
    assume a: "0 < i \<and> is_redirect (tokens ! (i - 1))"
    then have "i - 1 < length tokens" "(i - 1) + 1 < length tokens" "tokens ! ((i - 1) + 1) = ''|''"
      using i p by simp_all
    then show ?thesis
      unfolding redirect_beside_pipe_def list_ex_iff using a
      by (intro bexI[of _ "i - 1"]) auto
  next
    assume a: "i < length tokens - 1 \<and> is_redirect (tokens ! (i + 1))"
    then have "i + 1 < length tokens" by arith
    moreover have "tokens ! ((i + 1) - 1) = ''|''" using p by simp
    ultimately have "i + 1 < length tokens" "tokens ! ((i + 1) - 1) = ''|''" by blast+
    then show ?thesis
      unfolding redirect_beside_pipe_def list_ex_iff using a
      by (intro bexI[of _ "i + 1"]) auto
  qed
next
  assume "redirect_beside_pipe tokens"
  then obtain i where i: "i < length tokens" and r: "is_redirect (tokens ! i)"
    and adj: "(0 < i \<and> tokens ! (i - 1) = ''|'') \<or>
              (i + 1 < length tokens \<and> tokens ! (i + 1) = ''|'')"
    unfolding redirect_beside_pipe_def list_ex_upt by blast
  from adj show "improperMix tokens"
  proof
    assume a: "0 < i \<and> tokens ! (i - 1) = ''|''"
    then have "i - 1 < length tokens" "i - 1 < length tokens - 1" "tokens ! ((i - 1) + 1) = tokens ! i"
      using i by (arith, arith, simp)
    then show ?thesis
      unfolding improperMix_def list_ex_iff using a r
      by (intro bexI[of _ "i - 1"]) (auto simp: is_redirect_def)
  next
    assume a: "i + 1 < length tokens \<and> tokens ! (i + 1) = ''|''"
    then have "tokens ! ((i + 1) - 1) = tokens ! i" by simp
    then show ?thesis
      unfolding improperMix_def list_ex_iff using a r
      by (intro bexI[of _ "i + 1"]) (auto simp: is_redirect_def)
  qed
qed

lemma improperMix_counts:
  assumes "improperMix tokens"
  shows "0 < count_list tokens ''|'' \<and> (0 < count_list tokens ''<'' \<or> 0 < count_list tokens ''>'')"
proof -
  from assms obtain i where i: "i < length tokens" and p: "tokens ! i = ''|''"
    and adj: "(0 < i \<and> (tokens ! (i - 1) = ''>'' \<or> tokens ! (i - 1) = ''<'')) \<or>
              (i < length tokens - 1 \<and> (tokens ! (i + 1) = ''>'' \<or> tokens ! (i + 1) = ''<''))"
    unfolding improperMix_def list_ex_upt by blast
  have pipe: "0 < count_list tokens ''|''"
    using i p count_pos_mem[of "''|''" tokens] nth_mem[OF i] by simp
  have "''>'' \<in> set tokens \<or> ''<'' \<in> set tokens"
  proof -
    from adj consider j where "j < length tokens" "tokens ! j = ''>'' \<or> tokens ! j = ''<''"
      using i by (metis less_diff_conv less_imp_diff_less)
    then show ?thesis by (metis nth_mem)
  qed
  then show ?thesis using pipe count_pos_mem by metis
qed

lemma hasMultiple_iff:
  "hasMultipleRedirectionsOrPipes tokens \<longleftrightarrow>
     1 < count_list tokens ''<'' \<or> 1 < count_list tokens ''>'' \<or> redirect_beside_pipe tokens"
  unfolding improperMix_iff[symmetric]
  using improperMix_counts[of tokens]
  by (auto simp: hasMultipleRedirectionsOrPipes_def Let_def)

lemma repeated_counts_twice:
  assumes i: "i < length xs" and x: "xs ! i = x" and e: "x \<in> set (take i xs)"
  shows "1 < count_list xs x"
proof -
  have "xs = take i xs @ xs ! i # drop (Suc i) xs" using i by (rule id_take_nth_drop)
  then have "count_list xs x = count_list (take i xs) x + 1 + count_list (drop (Suc i) xs) x"
    using x by (metis add.assoc add.commute count_list.simps(2) count_list_append)
  moreover have "0 < count_list (take i xs) x" using e by (rule count_pos_mem)
  ultimately show ?thesis by simp
qed

lemma rejected_iff:
  "rejected tokens \<longleftrightarrow>
     redirect_beside_pipe tokens \<or> redirect_first tokens \<or>
     1 < count_list tokens ''<'' \<or> 1 < count_list tokens ''>'' \<or> pipe_misplaced tokens"
proof
  assume "rejected tokens"
  then consider "hasMultipleRedirectionsOrPipes tokens" | "hasSyntaxErrors tokens"
    unfolding rejected_def by blast
  then show "redirect_beside_pipe tokens \<or> redirect_first tokens \<or>
     1 < count_list tokens ''<'' \<or> 1 < count_list tokens ''>'' \<or> pipe_misplaced tokens"
  proof cases
    case 1
    then show ?thesis using hasMultiple_iff by blast
  next
    case 2
    then obtain k where k: "k < length tokens" and bad: "bad_at tokens k"
      using hasSyntaxErrors_iff by blast
    from bad consider
        (rin) "tokens ! k = ''<''" "k = 0 \<or> tokens ! (k - 1) = ''|'' \<or> ''<'' \<in> set (take k tokens)"
      | (rout) "tokens ! k = ''>''" "k = 0 \<or> tokens ! (k - 1) = ''|'' \<or> ''>'' \<in> set (take k tokens)"
      | (pipe) "tokens ! k = ''|''" "k = 0 \<or> k = length tokens - 1 \<or> tokens ! (k - 1) = ''|''"
      unfolding bad_at_def by blast
    then show ?thesis
    proof cases
      case pipe
      then have "pipe_misplaced tokens"
        unfolding pipe_misplaced_def list_ex_iff using k by (intro bexI[of _ k]) auto
      then show ?thesis by simp
    next
      case rin
      have red: "is_redirect (tokens ! k)" using rin(1) by (simp add: is_redirect_def)
      from rin(2) consider "k = 0" | "0 < k" "tokens ! (k - 1) = ''|''"
        | "''<'' \<in> set (take k tokens)" by (cases k) auto
      then show ?thesis
      proof cases
        case 1
        then show ?thesis using red k by (auto simp: redirect_first_def)
      next
        case 2
        then have "redirect_beside_pipe tokens"
          unfolding redirect_beside_pipe_def list_ex_iff using k red
          by (intro bexI[of _ k]) auto
        then show ?thesis by simp
      next
        case 3
        then show ?thesis using repeated_counts_twice[OF k rin(1)] by simp
      qed
    next
      case rout
      have red: "is_redirect (tokens ! k)" using rout(1) by (simp add: is_redirect_def)
      from rout(2) consider "k = 0" | "0 < k" "tokens ! (k - 1) = ''|''"
        | "''>'' \<in> set (take k tokens)" by (cases k) auto
      then show ?thesis
      proof cases
        case 1
        then show ?thesis using red k by (auto simp: redirect_first_def)
      next
        case 2
        then have "redirect_beside_pipe tokens"
          unfolding redirect_beside_pipe_def list_ex_iff using k red
          by (intro bexI[of _ k]) auto
        then show ?thesis by simp
      next
        case 3
        then show ?thesis using repeated_counts_twice[OF k rout(1)] by simp
      qed
    qed
  qed
next
  assume "redirect_beside_pipe tokens \<or> redirect_first tokens \<or>
     1 < count_list tokens ''<'' \<or> 1 < count_list tokens ''>'' \<or> pipe_misplaced tokens"
  then consider "redirect_beside_pipe tokens \<or> 1 < count_list tokens ''<'' \<or> 1 < count_list tokens ''>''"
    | "redirect_first tokens" | "pipe_misplaced tokens" by blast
  then show "rejected tokens"
  proof cases
    case 1
    then show ?thesis using hasMultiple_iff by (auto simp: rejected_def)
  next
    case 2
    then have "0 < length tokens" "bad_at tokens 0"
      by (auto simp: redirect_first_def is_redirect_def bad_at_def)
    then show ?thesis using hasSyntaxErrors_iff by (auto simp: rejected_def)
  next
    case 3
    then obtain i where i: "i < length tokens" and p: "tokens ! i = ''|''"
      and w: "i = 0 \<or> i = length tokens - 1 \<or> tokens ! (i - 1) = ''|''"
      unfolding pipe_misplaced_def list_ex_upt by blast
    have "bad_at tokens i" unfolding bad_at_def using p w by blast
    with i have "\<exists>i<length tokens. bad_at tokens i" by blast
    then show ?thesis using hasSyntaxErrors_iff by (auto simp: rejected_def)
  qed
qed

text \<open>
  C3, as the code has it. The two checks discard a line, before anything is spawned,
  exactly when a redirect token stands immediately before or after a pipe token, or a
  redirect token is the first token, or there is more than one \<open><\<close> or more than one
  \<open>>\<close>, or a pipe token is first, last or immediately after a pipe token. A redirect
  token on an interior stage or on the wrong end is rejected in these cases and in no
  other.
\<close>

theorem redirect_placement_checks:
  assumes t: "tokens = tokenize (checkWhiteSpaces line)"
  shows "(rejected tokens \<longleftrightarrow>
            redirect_beside_pipe tokens \<or> redirect_first tokens \<or>
            1 < count_list tokens ''<'' \<or> 1 < count_list tokens ''>'' \<or>
            pipe_misplaced tokens) \<and>
         (rejected tokens \<longrightarrow> mish_line os line s = Inr s)"
proof
  show "rejected tokens \<longleftrightarrow>
            redirect_beside_pipe tokens \<or> redirect_first tokens \<or>
            1 < count_list tokens ''<'' \<or> 1 < count_list tokens ''>'' \<or>
            pipe_misplaced tokens"
    by (rule rejected_iff)
  show "rejected tokens \<longrightarrow> mish_line os line s = Inr s"
  proof
    assume rej: "rejected tokens"
    have "tokenize (checkWhiteSpaces ''exit'') = [''exit''] \<and> \<not> rejected [''exit'']"
      by code_simp
    then have "line \<noteq> ''exit''" using t rej by auto
    then show "mish_line os line s = Inr s"
      using rej t by (auto simp: mish_line_def Let_def rejected_def)
  qed
qed

theorem redirect_placement_checks_witness:
  "[''a'', ''|'', ''>'', ''f''] = tokenize (checkWhiteSpaces ''a |> f'') \<and>
   redirect_beside_pipe [''a'', ''|'', ''>'', ''f''] \<and>
   rejected [''a'', ''|'', ''>'', ''f''] \<and>
   mish_line os_ok ''a |> f'' shell0 = Inr shell0 \<and>
   [''a'', ''>'', ''f'', ''|'', ''b''] = tokenize (checkWhiteSpaces ''a > f | b'') \<and>
   \<not> rejected [''a'', ''>'', ''f'', ''|'', ''b'']"
proof -
  have t: "[''a'', ''|'', ''>'', ''f''] = tokenize (checkWhiteSpaces ''a |> f'')"
    by code_simp
  have b: "redirect_beside_pipe [''a'', ''|'', ''>'', ''f'']"
    by code_simp
  have r: "rejected [''a'', ''|'', ''>'', ''f'']"
    using redirect_placement_checks[OF t, of os_ok shell0] b by blast
  have m: "mish_line os_ok ''a |> f'' shell0 = Inr shell0"
    using redirect_placement_checks[OF t, of os_ok shell0] r by blast
  have u: "[''a'', ''>'', ''f'', ''|'', ''b''] = tokenize (checkWhiteSpaces ''a > f | b'')"
    by code_simp
  have n: "\<not> (redirect_beside_pipe [''a'', ''>'', ''f'', ''|'', ''b''] \<or>
              redirect_first [''a'', ''>'', ''f'', ''|'', ''b''] \<or>
              1 < count_list [''a'', ''>'', ''f'', ''|'', ''b''] ''<'' \<or>
              1 < count_list [''a'', ''>'', ''f'', ''|'', ''b''] ''>'' \<or>
              pipe_misplaced [''a'', ''>'', ''f'', ''|'', ''b''])"
    by code_simp
  have a: "\<not> rejected [''a'', ''>'', ''f'', ''|'', ''b'']"
    using redirect_placement_checks[OF u, of os_ok shell0] n by blast
  show ?thesis using t b r m u a by blast
qed

text \<open>
  The claim as stated fails on \<open>a > f | b\<close>, an output redirect on the first of two
  stages: both checks accept the line, and the first stage is executed with the redirect
  token and the path as arguments.
\<close>

theorem wrong_end_redirect_counterexample:
  "\<not> hasMultipleRedirectionsOrPipes [''a'', ''>'', ''f'', ''|'', ''b''] \<and>
   \<not> hasSyntaxErrors [''a'', ''>'', ''f'', ''|'', ''b''] \<and>
   tokenize (checkWhiteSpaces ''a > f | b'') = [''a'', ''>'', ''f'', ''|'', ''b''] \<and>
   map child_end (procs (snd (mish_loop os_ok [''a > f | b''] shell0))) =
     [Execvp [''a'', ''>'', ''f''], Execvp [''b'']]"
  by code_simp

section \<open>A failed open in the first stage of a pipeline\<close>

text \<open>
  C4. A stage whose redirect file cannot be opened should exit with a non-zero status.
  \<open>executeCommand\<close> does so, and so does the output redirect of a pipeline's last stage;
  the first stage of a pipeline writes its message and goes on to \<open>execvp\<close>. On
  \<open>cat < missing | wc\<close>, with no file that can be opened:
\<close>

theorem piped_input_open_failure_goes_on:
  "piped_child (os_ok\<lparr>can_open := \<lambda>path fl. False\<rparr>)
     (splitCommands [''cat'', ''<'', ''missing'', ''|'', ''wc'']) 0 STDIN_FILENO (Some (3, 4))
     [Some (Inherited 0), Some (Inherited 1), Some (Inherited 2),
      Some (PipeRead 0), Some (PipeWrite 0)]
   = \<lparr>child_role = Stage 0,
      child_fds = [Some (Inherited 0), Some (PipeWrite 0), Some (Inherited 2), None, None],
      child_err = [''syntax error, unexpected PIPE, expecting STRING''],
      child_end = Execvp [''cat'']\<rparr> \<and>
   map child_end
     (procs (snd (mish_loop (os_ok\<lparr>can_open := \<lambda>path fl. False\<rparr>)
        [''cat < missing | wc''] shell0))) = [Execvp [''cat''], Execvp [''wc'']] \<and>
   child_end (executeCommand_child (os_ok\<lparr>can_open := \<lambda>path fl. False\<rparr>)
     [''cat'', ''<'', ''missing'']
     [Some (Inherited 0), Some (Inherited 1), Some (Inherited 2)]) = Exit EXIT_FAILURE"
  by code_simp

section \<open>The background marker stays among the tokens\<close>

text \<open>
  C6. The marker should be stripped before the checks run and never reach an argument
  list. The source removes it from the string \<open>input\<close> after the tokens were made, so the
  tokens keep it: \<open>ls | &\<close> passes the checks although \<open>ls |\<close> does not, and the
  processes spawned for \<open>ls &\<close> get the marker as an argument.
\<close>

theorem marker_is_validated_and_passed_on:
  "tokenize (checkWhiteSpaces ''ls | &'') = [''ls'', ''|'', ''&''] \<and>
   \<not> hasMultipleRedirectionsOrPipes [''ls'', ''|'', ''&''] \<and>
   \<not> hasSyntaxErrors [''ls'', ''|'', ''&''] \<and>
   hasSyntaxErrors [''ls'', ''|''] \<and>
   tokenize (checkWhiteSpaces ''ls &'') = [''ls'', ''&''] \<and>
   map (\<lambda>c. (child_role c, child_end c)) (procs (snd (mish_loop os_ok [''ls &''] shell0))) =
     [(Background, Execvp [''ls'', ''&'']), (Foreground, Execvp [''ls'', ''&''])]"
  by code_simp

section \<open>A redirect operator as the last token\<close>









section \<open>The parent's standard streams around \<open>executeCommand\<close>\<close>

lemma fds_emit [simp]: "fds (emit e s) = fds s"
  by (simp add: emit_def)

lemma fds_sys_fork: "fds (snd (sys_fork os body s)) = fds s"
  by (simp add: sys_fork_def Let_def)

lemma fds_sys_waitpid: "fds (snd (sys_waitpid os pid s)) = fds s"
  by (simp add: sys_waitpid_def)

lemma fds_sys_close: "fds (sys_close fd s) = fd_close (fds s) fd"
  by (simp add: sys_close_def)

lemma fds_sys_dup2: "fds (sys_dup2 a b s) = fd_dup2 (fds s) a b"
  by (simp add: sys_dup2_def)

lemma sys_dup_cases:
  assumes "sys_dup fd s = (n, s')"
  shows "(n = -1 \<and> fds s' = fds s) \<or>
         (0 \<le> n \<and> fd_lookup (fds s) n = None \<and>
          fd_lookup (fds s') = (fd_lookup (fds s))(n := fd_lookup (fds s) fd))"
  using assms lowest_free_free[of "fds s"]
  by (auto simp: sys_dup_def fd_dup_def fd_lookup_bind fun_eq_iff split: option.splits)

lemma save_streams_table:
  assumes sv: "save_streams tokens s = (a, b, s2)"
    and in0: "fd_lookup (fds s) 0 \<noteq> None" and out0: "fd_lookup (fds s) 1 \<noteq> None"
  shows "(a = -1 \<or> (0 \<le> a \<and> fd_lookup (fds s) a = None)) \<and>
         (b = -1 \<or> (0 \<le> b \<and> fd_lookup (fds s) b = None \<and> b \<noteq> a)) \<and>
         (\<forall>m. fd_lookup (fds s2) m =
               (if m = a \<and> a \<noteq> -1 then fd_lookup (fds s) 1
                else if m = b \<and> b \<noteq> -1 then fd_lookup (fds s) 0
                else fd_lookup (fds s) m))"
proof -
  obtain s1 where d1: "(if findTokenIndex tokens ''>'' \<noteq> -1 then sys_dup STDOUT_FILENO s else (-1, s)) = (a, s1)"
    and d2: "(if findTokenIndex tokens ''<'' \<noteq> -1 then sys_dup STDIN_FILENO s1 else (-1, s1)) = (b, s2)"
    using sv by (auto simp: save_streams_def Let_def split: prod.splits)
  have A: "(a = -1 \<and> fds s1 = fds s) \<or>
         (0 \<le> a \<and> fd_lookup (fds s) a = None \<and>
          fd_lookup (fds s1) = (fd_lookup (fds s))(a := fd_lookup (fds s) 1))"
    using d1 sys_dup_cases[of STDOUT_FILENO s a s1]
    by (auto simp: STDOUT_FILENO_def split: if_splits)
  have B: "(b = -1 \<and> fds s2 = fds s1) \<or>
         (0 \<le> b \<and> fd_lookup (fds s1) b = None \<and>
          fd_lookup (fds s2) = (fd_lookup (fds s1))(b := fd_lookup (fds s1) 0))"
    using d2 sys_dup_cases[of STDIN_FILENO s1 b s2]
    by (auto simp: STDIN_FILENO_def split: if_splits)
  from A show ?thesis
  proof (elim disjE conjE)
    assume a: "a = -1" and e1: "fds s1 = fds s"
    from B show ?thesis
    proof (elim disjE conjE)
      assume "b = -1" "fds s2 = fds s1"
      then show ?thesis using a e1 by simp
    next
      assume "0 \<le> b" "fd_lookup (fds s1) b = None"
        "fd_lookup (fds s2) = (fd_lookup (fds s1))(b := fd_lookup (fds s1) 0)"
      then show ?thesis using a e1 by simp
    qed
  next
    assume a: "0 \<le> a" and fa: "fd_lookup (fds s) a = None"
      and e1: "fd_lookup (fds s1) = (fd_lookup (fds s))(a := fd_lookup (fds s) 1)"
    have a0: "a \<noteq> 0" using fa in0 by auto
    from B show ?thesis
    proof (elim disjE conjE)
      assume "b = -1" "fds s2 = fds s1"
      then show ?thesis using a fa e1 by auto
    next
      assume b: "0 \<le> b" and fb: "fd_lookup (fds s1) b = None"
        and e2: "fd_lookup (fds s2) = (fd_lookup (fds s1))(b := fd_lookup (fds s1) 0)"
      have ba: "b \<noteq> a" using fb e1 out0 by auto
      then have "fd_lookup (fds s) b = None" using fb e1 by simp
      then show ?thesis using a fa b ba a0 e1 e2 by auto
    qed
  qed
qed

lemma restore_streams_table:
  assumes a: "a = -1 \<or> (0 \<le> a \<and> fd_lookup t a = None)"
    and b: "b = -1 \<or> (0 \<le> b \<and> fd_lookup t b = None \<and> b \<noteq> a)"
    and tab: "\<forall>m. fd_lookup (fds s) m =
               (if m = a \<and> a \<noteq> -1 then fd_lookup t 1
                else if m = b \<and> b \<noteq> -1 then fd_lookup t 0
                else fd_lookup t m)"
    and in0: "fd_lookup t 0 \<noteq> None" and out0: "fd_lookup t 1 \<noteq> None"
  shows "fd_lookup (fds (restore_streams a b s)) m = fd_lookup t m"
proof -
  have a01: "a \<noteq> 0 \<and> a \<noteq> 1" using a in0 out0 by auto
  have b01: "b \<noteq> 0 \<and> b \<noteq> 1" using b in0 out0 by auto
  show ?thesis
    using a b tab in0 out0 a01 b01
    by (auto simp: restore_streams_def Let_def fds_sys_close fds_sys_dup2 fd_lookup_close
        fd_lookup_dup2 STDIN_FILENO_def STDOUT_FILENO_def split: option.splits)
qed

text \<open>
  C8, as the code has it. In a shell whose standard input and output are open, the parent
  of \<open>executeCommand\<close> does duplicate and rebind its standard descriptors, but never to
  another file: when the call returns, every descriptor is bound as it was before the
  call; while the parent waits, every descriptor that was open keeps its binding; and the
  parent's table never holds an open file description it did not hold before the call
  (the redirect files are opened in the child only).
\<close>

theorem parent_streams_kept:
  assumes in0: "fd_lookup (fds s) STDIN_FILENO \<noteq> None"
    and out0: "fd_lookup (fds s) STDOUT_FILENO \<noteq> None"
    and run: "executeCommand os tokens s = Inr s'"
  shows "(\<forall>fd. fd_lookup (fds s') fd = fd_lookup (fds s) fd) \<and>
         (\<forall>fd d. fd_lookup (fds s) fd = Some d \<longrightarrow>
            fd_lookup (fds (executeCommand_waiting os tokens s)) fd = Some d) \<and>
         (\<forall>fd d. fd_lookup (fds (executeCommand_waiting os tokens s)) fd = Some d \<longrightarrow>
            (\<exists>fd'. fd_lookup (fds s) fd' = Some d))"
proof -
  obtain pid s1 where f: "sys_fork os (executeCommand_child os tokens) s = (pid, s1)"
    by (cases "sys_fork os (executeCommand_child os tokens) s")
  obtain a b s2 where sv: "save_streams tokens s1 = (a, b, s2)"
    by (cases "save_streams tokens s1") auto
  have t1: "fds s1 = fds s" using f fds_sys_fork[of os "executeCommand_child os tokens" s] by simp
  have i1: "fd_lookup (fds s1) 0 \<noteq> None" and o1: "fd_lookup (fds s1) 1 \<noteq> None"
    using in0 out0 t1 by (simp_all add: STDIN_FILENO_def STDOUT_FILENO_def)
  note st = save_streams_table[OF sv i1 o1]
  have w: "executeCommand_waiting os tokens s = s2"
    by (simp add: executeCommand_waiting_def f sv)
  have s': "s' = restore_streams a b (snd (sys_waitpid os pid s2))"
    using run f sv by (auto simp: executeCommand_def split: if_splits prod.splits)
  have tab3: "\<forall>m. fd_lookup (fds (snd (sys_waitpid os pid s2))) m =
               (if m = a \<and> a \<noteq> -1 then fd_lookup (fds s1) 1
                else if m = b \<and> b \<noteq> -1 then fd_lookup (fds s1) 0
                else fd_lookup (fds s1) m)"
    using st by (simp add: fds_sys_waitpid)
  have fin: "\<forall>fd. fd_lookup (fds s') fd = fd_lookup (fds s) fd"
    using restore_streams_table[OF _ _ tab3 i1 o1] st t1 s' by simp
  have during: "\<forall>fd d. fd_lookup (fds s) fd = Some d \<longrightarrow> fd_lookup (fds s2) fd = Some d"
    using st t1 by auto
  have nonew: "\<forall>fd d. fd_lookup (fds s2) fd = Some d \<longrightarrow> (\<exists>fd'. fd_lookup (fds s) fd' = Some d)"
    using st t1 by (metis)
  show ?thesis using fin during nonew w by simp
qed

theorem parent_streams_kept_witness:
  "fd_lookup (fds shell0) STDIN_FILENO \<noteq> None \<and>
   fd_lookup (fds shell0) STDOUT_FILENO \<noteq> None \<and>
   executeCommand os_ok [''echo'', ''hi'', ''>'', ''out.txt''] shell0 =
     Inr \<lparr>fds = [Some (Inherited 0), Some (Inherited 1), Some (Inherited 2), None],
          pipe_calls = 0, pipes_made = 0, fork_calls = 1,
          procs =
            [\<lparr>child_role = Foreground,
                child_fds = [Some (Inherited 0),
                             Some (OpenFile ''out.txt'' O_WRONLY_CREAT_TRUNC),
                             Some (Inherited 2), None],
                child_err = [], child_end = Execvp [''echo'', ''hi'']\<rparr>],
          trace = [Ev_fork 1, Ev_dup 1 3, Ev_waitpid 1, Ev_dup2 3 1, Ev_close 3]\<rparr> \<and>
   fd_lookup (fds (executeCommand_waiting os_ok [''echo'', ''hi'', ''>'', ''out.txt''] shell0))
     STDOUT_FILENO = Some (Inherited 1)"
proof -
  have i: "fd_lookup (fds shell0) STDIN_FILENO \<noteq> None" by code_simp
  have o: "fd_lookup (fds shell0) STDOUT_FILENO \<noteq> None" by code_simp
  have run: "executeCommand os_ok [''echo'', ''hi'', ''>'', ''out.txt''] shell0 =
     Inr \<lparr>fds = [Some (Inherited 0), Some (Inherited 1), Some (Inherited 2), None],
          pipe_calls = 0, pipes_made = 0, fork_calls = 1,
          procs =
            [\<lparr>child_role = Foreground,
                child_fds = [Some (Inherited 0),
                             Some (OpenFile ''out.txt'' O_WRONLY_CREAT_TRUNC),
                             Some (Inherited 2), None],
                child_err = [], child_end = Execvp [''echo'', ''hi'']\<rparr>],
          trace = [Ev_fork 1, Ev_dup 1 3, Ev_waitpid 1, Ev_dup2 3 1, Ev_close 3]\<rparr>"
    by code_simp
  have b: "fd_lookup (fds shell0) STDOUT_FILENO = Some (Inherited 1)" by code_simp
  have "fd_lookup (fds (executeCommand_waiting os_ok [''echo'', ''hi'', ''>'', ''out.txt''] shell0))
     STDOUT_FILENO = Some (Inherited 1)"
    using parent_streams_kept[OF i o run] b by blast
  then show ?thesis using i o run by blast
qed

text \<open>
  The claim as stated says the parent never duplicates or rebinds a standard descriptor.
  On \<open>echo hi > out.txt\<close> the parent calls \<open>dup(STDOUT_FILENO)\<close> before the wait and
  \<open>dup2(saved_stdout, STDOUT_FILENO)\<close> after it.
\<close>

theorem parent_rebinds_stdout_counterexample:
  "(case mish_line os_ok ''echo hi > out.txt'' shell0 of
      Inl e \<Rightarrow> []
    | Inr s \<Rightarrow> trace s) = [Ev_fork 1, Ev_dup 1 3, Ev_waitpid 1, Ev_dup2 3 1, Ev_close 3]"
  by code_simp

section \<open>What a pipeline spawns, creates and waits for\<close>

lemma piped_child_role: "child_role (piped_child os commands i infd fd t) = Stage i"
  by (simp add: piped_child_def split: prod.splits)

lemma waited_pids_append [simp]: "waited_pids (xs @ ys) = waited_pids xs @ waited_pids ys"
  by (simp add: waited_pids_def)

lemma forked_pids_append [simp]: "forked_pids (xs @ ys) = forked_pids xs @ forked_pids ys"
  by (simp add: forked_pids_def)

lemma waited_pids_simps [simp]:
  "waited_pids [] = []"
  "waited_pids (Ev_waitpid pid # evs) = pid # waited_pids evs"
  "waited_pids (Ev_fork pid # evs) = waited_pids evs"
  "waited_pids (Ev_pipe r # evs) = waited_pids evs"
  "waited_pids (Ev_close fd # evs) = waited_pids evs"
  "waited_pids (Ev_dup a b # evs) = waited_pids evs"
  "waited_pids (Ev_dup2 a b # evs) = waited_pids evs"
  "waited_pids (Ev_write fd m # evs) = waited_pids evs"
  "waited_pids (Ev_prompt # evs) = waited_pids evs"
  "waited_pids (Ev_chdir d # evs) = waited_pids evs"
  "waited_pids (Ev_setenv n v # evs) = waited_pids evs"
  "waited_pids (Ev_unsetenv n # evs) = waited_pids evs"
  by (simp_all add: waited_pids_def)

lemma forked_pids_simps [simp]:
  "forked_pids [] = []"
  "forked_pids (Ev_fork pid # evs) = (if pid = -1 then [] else [pid]) @ forked_pids evs"
  "forked_pids (Ev_waitpid pid # evs) = forked_pids evs"
  "forked_pids (Ev_pipe r # evs) = forked_pids evs"
  "forked_pids (Ev_close fd # evs) = forked_pids evs"
  "forked_pids (Ev_write fd m # evs) = forked_pids evs"
  by (simp_all add: forked_pids_def)

lemma advances_refl: "advances s s [] [] 0"
  by (simp add: advances_def)

lemma advances_trans:
  "advances s s1 cs1 ev1 p1 \<Longrightarrow> advances s1 s2 cs2 ev2 p2 \<Longrightarrow>
   advances s s2 (cs1 @ cs2) (ev1 @ ev2) (p1 + p2)"
  by (simp add: advances_def)

lemma advances_emit: "advances s (emit e s) [] [e] 0"
  by (simp add: advances_def emit_def)

lemma advances_close: "advances s (sys_close fd s) [] [Ev_close fd] 0"
  by (simp add: advances_def sys_close_def emit_def)

lemma advances_pipe:
  "sys_pipe os s = (r, s') \<Longrightarrow> advances s s' [] [Ev_pipe r] (if r = None then 0 else 1)"
  by (auto simp: advances_def sys_pipe_def emit_def split: if_splits prod.splits)

lemma advances_fork:
  "sys_fork os body s = (pid, s') \<Longrightarrow>
   (pid = -1 \<and> advances s s' [] [Ev_fork pid] 0) \<or>
   (pid = int (length (procs s)) + 1 \<and> advances s s' [body (fds s)] [Ev_fork pid] 0)"
  by (auto simp: advances_def sys_fork_def emit_def Let_def split: if_splits)

lemma pipe_setup_book:
  assumes "pipe_setup os b l s = Inr (fd, l1, s1)"
  shows "\<exists>ev. advances s s1 [] ev (if b then 1 else 0) \<and> waited_pids ev = [] \<and>
              forked_pids ev = [] \<and> child_pids l1 = child_pids l \<and> in_fd l1 = in_fd l \<and>
              (b \<longleftrightarrow> fd \<noteq> None)"
proof (cases b)
  case False
  then show ?thesis using assms advances_refl[of s] by (auto simp: pipe_setup_def)
next
  case True
  obtain r1 sa where p1: "sys_pipe os s = (r1, sa)" by (cases "sys_pipe os s")
  show ?thesis
  proof (cases r1)
    case (Some f)
    then have "fd = Some f" "l1 = l" "s1 = sa"
      using assms True p1 by (auto simp: pipe_setup_def)
    then show ?thesis using advances_pipe[OF p1] Some True
      by (intro exI[of _ "[Ev_pipe r1]"]) auto
  next
    case None
    obtain r2 sb where p2: "sys_pipe os sa = (r2, sb)" by (cases "sys_pipe os sa")
    from assms True p1 None p2 obtain f0 f1 where r2: "r2 = Some (f0, f1)"
      and e: "fd = Some (f0, f1)" "l1 = l\<lparr>fds_vec := fds_vec l @ [f0, f1]\<rparr>" "s1 = sb"
      by (auto simp: pipe_setup_def split: option.splits)
    have "advances s sb ([] @ []) ([Ev_pipe r1] @ [Ev_pipe r2]) (0 + 1)"
      using advances_trans[OF advances_pipe[OF p1] advances_pipe[OF p2]] None r2 by simp
    then show ?thesis using e True
      by (intro exI[of _ "[Ev_pipe r1, Ev_pipe r2]"]) auto
  qed
qed

lemma stage_book:
  assumes run: "executePipedCommand_stage os commands i l s = Inr (l', s')"
  shows "\<exists>c ev. advances s s' [c] ev (if i < length commands - 1 then 1 else 0) \<and>
           child_role c = Stage i \<and>
           child_pids l' = child_pids l @ [int (length (procs s)) + 1] \<and>
           waited_pids ev = [] \<and> forked_pids ev = [int (length (procs s)) + 1]"
proof -
  let ?b = "i < length commands - 1"
  obtain fd l1 s1 where ps: "pipe_setup os ?b l s = Inr (fd, l1, s1)"
    using run by (auto simp: executePipedCommand_stage_def split: sum.splits)
  obtain pid s2 where fk: "sys_fork os (piped_child os commands i (in_fd l1) fd) s1 = (pid, s2)"
    by (cases "sys_fork os (piped_child os commands i (in_fd l1) fd) s1")
  from pipe_setup_book[OF ps] obtain ev1 where
    a1: "advances s s1 [] ev1 (if ?b then 1 else 0)" and w1: "waited_pids ev1 = []"
    and f1: "forked_pids ev1 = []" and cp: "child_pids l1 = child_pids l"
    and fdn: "?b \<longleftrightarrow> fd \<noteq> None" by blast
  have pidok: "pid \<noteq> -1"
    using run ps fk by (auto simp: executePipedCommand_stage_def split: if_splits)
  let ?c = "piped_child os commands i (in_fd l1) fd (fds s1)"
  have len: "length (procs s1) = length (procs s)" using a1 by (simp add: advances_def)
  have pid: "pid = int (length (procs s)) + 1" and a2: "advances s1 s2 [?c] [Ev_fork pid] 0"
    using advances_fork[OF fk] pidok len by auto
  define s3 where "s3 = (if in_fd l1 \<noteq> STDIN_FILENO then sys_close (in_fd l1) s2 else s2)"
  define ev3 where "ev3 = (if in_fd l1 \<noteq> STDIN_FILENO then [Ev_close (in_fd l1)] else [])"
  have a3: "advances s2 s3 [] ev3 0"
    using advances_close[of s2 "in_fd l1"] advances_refl[of s2] by (simp add: s3_def ev3_def)
  have w3: "waited_pids ev3 = []" "forked_pids ev3 = []" by (simp_all add: ev3_def)
  have a123: "advances s s3 [?c] (ev1 @ [Ev_fork pid] @ ev3) (if ?b then 1 else 0)"
    using advances_trans[OF advances_trans[OF a1 a2] a3] by simp
  show ?thesis
  proof (cases ?b)
    case False
    then have "l' = l1\<lparr>child_pids := child_pids l1 @ [pid]\<rparr>" "s' = s3"
      using run ps fk pidok by (auto simp: executePipedCommand_stage_def Let_def s3_def)
    then show ?thesis using a123 w1 f1 w3 cp pid pidok piped_child_role
      by (intro exI[of _ ?c] exI[of _ "ev1 @ [Ev_fork pid] @ ev3"]) auto
  next
    case True
    then obtain fd0 fd1 where fd: "fd = Some (fd0, fd1)" using fdn by auto
    have e: "l' = l1\<lparr>child_pids := child_pids l1 @ [pid], in_fd := fd0\<rparr>" "s' = sys_close fd1 s3"
      using run ps fk pidok True fd
      by (auto simp: executePipedCommand_stage_def Let_def s3_def)
    have "advances s s' ([?c] @ []) ((ev1 @ [Ev_fork pid] @ ev3) @ [Ev_close fd1])
            ((if ?b then 1 else 0) + 0)"
      unfolding e by (rule advances_trans[OF a123 advances_close])
    then show ?thesis using e w1 f1 w3 cp pid pidok piped_child_role
      by (intro exI[of _ ?c] exI[of _ "(ev1 @ [Ev_fork pid] @ ev3) @ [Ev_close fd1]"]) auto
  qed
qed


lemma new_pids_Suc: "new_pids p (Suc n) = (int p + 1) # new_pids (Suc p) n"
  unfolding new_pids_def by (simp only: map_upt_Suc) simp

lemma new_pids_0: "new_pids p 0 = []"
  by (simp add: new_pids_def)

lemma loop_book:
  assumes "executePipedCommand_loop os commands js l s = Inr (l', s')"
  shows "\<exists>cs ev. advances s s' cs ev (length (filter (\<lambda>i. i < length commands - 1) js)) \<and>
           map child_role cs = map Stage js \<and>
           child_pids l' = child_pids l @ new_pids (length (procs s)) (length js) \<and>
           waited_pids ev = [] \<and> forked_pids ev = new_pids (length (procs s)) (length js)"
  using assms
proof (induction js arbitrary: l s)
  case Nil
  then show ?case using advances_refl[of s] by (auto simp: new_pids_0)
next
  case (Cons i js)
  from Cons.prems obtain l1 s1 where
    st: "executePipedCommand_stage os commands i l s = Inr (l1, s1)"
    and rest: "executePipedCommand_loop os commands js l1 s1 = Inr (l', s')"
    by (auto split: sum.splits)
  from stage_book[OF st] obtain c ev1 where
    a1: "advances s s1 [c] ev1 (if i < length commands - 1 then 1 else 0)"
    and r1: "child_role c = Stage i"
    and p1: "child_pids l1 = child_pids l @ [int (length (procs s)) + 1]"
    and w1: "waited_pids ev1 = []" and f1: "forked_pids ev1 = [int (length (procs s)) + 1]"
    by blast
  have len: "length (procs s1) = Suc (length (procs s))" using a1 by (simp add: advances_def)
  from Cons.IH[OF rest] obtain cs ev2 where
    a2: "advances s1 s' cs ev2 (length (filter (\<lambda>i. i < length commands - 1) js))"
    and r2: "map child_role cs = map Stage js"
    and p2: "child_pids l' = child_pids l1 @ new_pids (length (procs s1)) (length js)"
    and w2: "waited_pids ev2 = []"
    and f2: "forked_pids ev2 = new_pids (length (procs s1)) (length js)"
    by blast
  have "advances s s' ([c] @ cs) (ev1 @ ev2)
          ((if i < length commands - 1 then 1 else 0) +
           length (filter (\<lambda>i. i < length commands - 1) js))"
    by (rule advances_trans[OF a1 a2])
  then have a: "advances s s' (c # cs) (ev1 @ ev2)
          (length (filter (\<lambda>i. i < length commands - 1) (i # js)))"
    by (cases "i < length commands - 1") simp_all
  show ?case
    using a r1 r2 p1 p2 w1 w2 f1 f2 len
    by (intro exI[of _ "c # cs"] exI[of _ "ev1 @ ev2"]) (simp add: new_pids_Suc)
qed

lemma advances_closes: "advances s (fold sys_close xs s) [] (map Ev_close xs) 0"
proof (induction xs arbitrary: s)
  case Nil
  then show ?case by (simp add: advances_refl)
next
  case (Cons x xs)
  show ?case
    using advances_trans[OF advances_close[of s x] Cons.IH[of "sys_close x s"]] by simp
qed

lemma advances_wait_all: "advances s (wait_all os pids s) [] (map Ev_waitpid pids) 0"
  unfolding wait_all_def
proof (induction pids arbitrary: s)
  case Nil
  then show ?case by (simp add: advances_refl)
next
  case (Cons x xs)
  have "advances s (snd (sys_waitpid os x s)) [] [Ev_waitpid x] 0"
    by (simp add: sys_waitpid_def advances_emit)
  from advances_trans[OF this Cons.IH[of "snd (sys_waitpid os x s)"]]
  show ?case by simp
qed

lemma waited_pids_closes: "waited_pids (map Ev_close xs) = []"
  by (induction xs) simp_all

lemma forked_pids_closes: "forked_pids (map Ev_close xs) = []"
  by (induction xs) simp_all

lemma waited_pids_waits: "waited_pids (map Ev_waitpid xs) = xs"
  by (induction xs) simp_all

lemma forked_pids_waits: "forked_pids (map Ev_waitpid xs) = []"
  by (induction xs) simp_all

lemma count_not_last: "length (filter (\<lambda>i. i < n - 1) [0..<n]) = n - 1"
proof -
  have "filter (\<lambda>i. i < n - 1) [0..<n] = [0..<n - 1]"
    by (induction n) (auto simp: less_Suc_eq)
  then show ?thesis by simp
qed

lemma pipeline_book:
  assumes run: "executePipedCommand os tokens s = Inr s'"
  shows "\<exists>cs ev. advances s s' cs
             (ev @ map Ev_waitpid (new_pids (length (procs s)) (length (splitCommands tokens))))
             (length (splitCommands tokens) - 1) \<and>
           map child_role cs = map Stage [0..<length (splitCommands tokens)] \<and>
           waited_pids ev = [] \<and>
           forked_pids ev = new_pids (length (procs s)) (length (splitCommands tokens))"
proof -
  let ?cmds = "splitCommands tokens"
  let ?n = "length ?cmds"
  let ?l0 = "\<lparr>in_fd = STDIN_FILENO, fds_vec = [], child_pids = []\<rparr>"
  from run obtain l s1 where
    lp: "executePipedCommand_loop os ?cmds [0..<?n] ?l0 s = Inr (l, s1)"
    and s': "s' = wait_all os (child_pids l) (fold sys_close (fds_vec l) s1)"
    by (auto simp: executePipedCommand_def Let_def split: sum.splits)
  from loop_book[OF lp] obtain cs ev where
    a1: "advances s s1 cs ev (length (filter (\<lambda>i. i < ?n - 1) [0..<?n]))"
    and r: "map child_role cs = map Stage [0..<?n]"
    and p: "child_pids l = new_pids (length (procs s)) ?n"
    and w: "waited_pids ev = []" and f: "forked_pids ev = new_pids (length (procs s)) ?n"
    by auto
  have a2: "advances s1 (fold sys_close (fds_vec l) s1) [] (map Ev_close (fds_vec l)) 0"
    by (rule advances_closes)
  have a3: "advances (fold sys_close (fds_vec l) s1) s' [] (map Ev_waitpid (child_pids l)) 0"
    unfolding s' by (rule advances_wait_all)
  have "advances s s' cs ((ev @ map Ev_close (fds_vec l)) @ map Ev_waitpid (new_pids (length (procs s)) ?n)) (?n - 1)"
    using advances_trans[OF advances_trans[OF a1 a2] a3] p count_not_last[of ?n] by simp
  then show ?thesis using r w f
    by (intro exI[of _ cs] exI[of _ "ev @ map Ev_close (fds_vec l)"])
       (simp add: waited_pids_closes forked_pids_closes)
qed

section \<open>A pipeline reports no status\<close>

lemma fd_open_status: "fd_open (os\<lparr>wait_status := f\<rparr>) = fd_open os"
  by (intro ext) (simp add: fd_open_def)

lemma piped_child_status: "piped_child (os\<lparr>wait_status := f\<rparr>) = piped_child os"
  by (intro ext)
     (simp only: piped_child_def piped_input_redirect_def piped_output_redirect_def fd_open_status)

lemma sys_pipe_status: "sys_pipe (os\<lparr>wait_status := f\<rparr>) = sys_pipe os"
  by (intro ext) (simp add: sys_pipe_def)

lemma sys_fork_status: "sys_fork (os\<lparr>wait_status := f\<rparr>) = sys_fork os"
  by (intro ext) (simp add: sys_fork_def)

lemma pipe_setup_status: "pipe_setup (os\<lparr>wait_status := f\<rparr>) = pipe_setup os"
  by (intro ext) (simp only: pipe_setup_def sys_pipe_status)

lemma stage_status:
  "executePipedCommand_stage (os\<lparr>wait_status := f\<rparr>) = executePipedCommand_stage os"
  by (intro ext)
     (simp only: executePipedCommand_stage_def pipe_setup_status sys_fork_status piped_child_status)

lemma loop_status:
  "executePipedCommand_loop (os\<lparr>wait_status := f\<rparr>) commands js l s =
   executePipedCommand_loop os commands js l s"
  by (induction js arbitrary: l s) (simp_all add: stage_status split: sum.splits)

lemma wait_all_status: "wait_all (os\<lparr>wait_status := f\<rparr>) = wait_all os"
  by (intro ext) (simp add: wait_all_def sys_waitpid_def)

text \<open>
  C2, as the code has it. \<open>executePipedCommand\<close> returns nothing to the control loop, and
  what it does is the same whatever status \<open>waitpid\<close> stores for any stage. When it
  returns it has spawned one process per stage, in stage order, without a wait in
  between, and then waited for each of them once, in spawn order: the status of an earlier
  stage is never looked at, so it cannot cancel a later one.
\<close>

theorem pipeline_reports_no_status:
  assumes run: "executePipedCommand os tokens s = Inr s'"
  shows "executePipedCommand (os\<lparr>wait_status := f\<rparr>) tokens s = Inr s' \<and>
         (\<exists>cs ev. advances s s' cs
                  (ev @ map Ev_waitpid (new_pids (length (procs s)) (length (splitCommands tokens))))
                  (length (splitCommands tokens) - 1) \<and>
                map child_role cs = map Stage [0..<length (splitCommands tokens)] \<and>
                waited_pids ev = [] \<and>
                forked_pids ev = new_pids (length (procs s)) (length (splitCommands tokens)))"
proof
  have "executePipedCommand (os\<lparr>wait_status := f\<rparr>) tokens s = executePipedCommand os tokens s"
    by (simp only: executePipedCommand_def loop_status wait_all_status)
  then show "executePipedCommand (os\<lparr>wait_status := f\<rparr>) tokens s = Inr s'"
    using run by simp
  show "\<exists>cs ev. advances s s' cs
                  (ev @ map Ev_waitpid (new_pids (length (procs s)) (length (splitCommands tokens))))
                  (length (splitCommands tokens) - 1) \<and>
                map child_role cs = map Stage [0..<length (splitCommands tokens)] \<and>
                waited_pids ev = [] \<and>
                forked_pids ev = new_pids (length (procs s)) (length (splitCommands tokens))"
    using run by (rule pipeline_book)
qed

theorem pipeline_reports_no_status_witness:
  "executePipedCommand os_ok [''ls'', ''|'', ''wc''] shell0 =
     Inr \<lparr>fds = [Some (Inherited 0), Some (Inherited 1), Some (Inherited 2), None, None],
          pipe_calls = 1, pipes_made = 1, fork_calls = 2,
          procs =
            [\<lparr>child_role = Stage 0,
                child_fds = [Some (Inherited 0), Some (PipeWrite 0), Some (Inherited 2),
                             None, None],
                child_err = [], child_end = Execvp [''ls'']\<rparr>,
             \<lparr>child_role = Stage 1,
                child_fds = [Some (PipeRead 0), Some (Inherited 1), Some (Inherited 2),
                             None, None],
                child_err = [], child_end = Execvp [''wc'']\<rparr>],
          trace = [Ev_pipe (Some (3, 4)), Ev_fork 1, Ev_close 4, Ev_fork 2, Ev_close 3,
                   Ev_waitpid 1, Ev_waitpid 2]\<rparr> \<and>
   executePipedCommand (os_ok\<lparr>wait_status := \<lambda>pid. 1\<rparr>) [''ls'', ''|'', ''wc''] shell0 =
     executePipedCommand os_ok [''ls'', ''|'', ''wc''] shell0"
proof -
  have run: "executePipedCommand os_ok [''ls'', ''|'', ''wc''] shell0 =
     Inr \<lparr>fds = [Some (Inherited 0), Some (Inherited 1), Some (Inherited 2), None, None],
          pipe_calls = 1, pipes_made = 1, fork_calls = 2,
          procs =
            [\<lparr>child_role = Stage 0,
                child_fds = [Some (Inherited 0), Some (PipeWrite 0), Some (Inherited 2),
                             None, None],
                child_err = [], child_end = Execvp [''ls'']\<rparr>,
             \<lparr>child_role = Stage 1,
                child_fds = [Some (PipeRead 0), Some (Inherited 1), Some (Inherited 2),
                             None, None],
                child_err = [], child_end = Execvp [''wc'']\<rparr>],
          trace = [Ev_pipe (Some (3, 4)), Ev_fork 1, Ev_close 4, Ev_fork 2, Ev_close 3,
                   Ev_waitpid 1, Ev_waitpid 2]\<rparr>"
    by code_simp
  show ?thesis
    using run pipeline_reports_no_status[OF run, of "\<lambda>pid. 1"] by simp
qed

text \<open>
  The claim as stated makes the last stage's status the result reported to the control
  loop. On \<open>ls | wc\<close> the last stage is process 2; whether it ends with status 0 or with
  status 1, the control loop gets the same thing back.
\<close>

theorem last_stage_status_counterexample:
  "wait_status os_ok 2 = 0 \<and> wait_status (os_ok\<lparr>wait_status := \<lambda>pid. 1\<rparr>) 2 = 1 \<and>
   executePipedCommand os_ok [''ls'', ''|'', ''wc''] shell0 =
   executePipedCommand (os_ok\<lparr>wait_status := \<lambda>pid. 1\<rparr>) [''ls'', ''|'', ''wc''] shell0 \<and>
   (case executePipedCommand os_ok [''ls'', ''|'', ''wc''] shell0 of
      Inl e \<Rightarrow> []
    | Inr s \<Rightarrow> trace s) =
     [Ev_pipe (Some (3, 4)), Ev_fork 1, Ev_close 4, Ev_fork 2, Ev_close 3,
      Ev_waitpid 1, Ev_waitpid 2]"
  by code_simp

section \<open>Background processes are never waited for\<close>

lemma only_own_waits_quiet:
  "advances s s' cs ev p \<Longrightarrow> waited_pids ev = [] \<Longrightarrow> only_own_waits s s'"
  unfolding only_own_waits_def by (intro exI[of _ cs] exI[of _ ev] exI[of _ p]) simp

lemma only_own_waits_refl: "only_own_waits s s"
  using only_own_waits_quiet[OF advances_refl] by simp

lemma only_own_waits_trans:
  assumes a: "only_own_waits s s1" and b: "only_own_waits s1 s2"
  shows "only_own_waits s s2"
proof -
  from a obtain cs1 ev1 p1 where a1: "advances s s1 cs1 ev1 p1"
    and w1: "list_all (\<lambda>pid. int (length (procs s)) < pid \<and> pid \<le> int (length (procs s1)) \<and>
                        child_role (procs s1 ! nat (pid - 1)) \<noteq> Background) (waited_pids ev1)"
    unfolding only_own_waits_def by blast
  from b obtain cs2 ev2 p2 where a2: "advances s1 s2 cs2 ev2 p2"
    and w2: "list_all (\<lambda>pid. int (length (procs s1)) < pid \<and> pid \<le> int (length (procs s2)) \<and>
                        child_role (procs s2 ! nat (pid - 1)) \<noteq> Background) (waited_pids ev2)"
    unfolding only_own_waits_def by blast
  have p1: "procs s1 = procs s @ cs1" and p2: "procs s2 = procs s1 @ cs2"
    using a1 a2 by (simp_all add: advances_def)
  have k1: "list_all (\<lambda>pid. int (length (procs s)) < pid \<and> pid \<le> int (length (procs s2)) \<and>
                        child_role (procs s2 ! nat (pid - 1)) \<noteq> Background) (waited_pids ev1)"
    using w1 unfolding list_all_iff
  proof (intro ballI)
    fix pid assume m: "pid \<in> set (waited_pids ev1)"
      and h: "\<forall>pid\<in>set (waited_pids ev1). int (length (procs s)) < pid \<and> pid \<le> int (length (procs s1)) \<and>
                        child_role (procs s1 ! nat (pid - 1)) \<noteq> Background"
    from h m have lo: "int (length (procs s)) < pid" and hi: "pid \<le> int (length (procs s1))"
      and r: "child_role (procs s1 ! nat (pid - 1)) \<noteq> Background" by auto
    have "nat (pid - 1) < length (procs s1)" using lo hi by linarith
    then have "procs s2 ! nat (pid - 1) = procs s1 ! nat (pid - 1)"
      by (simp add: p2 nth_append)
    then show "int (length (procs s)) < pid \<and> pid \<le> int (length (procs s2)) \<and>
                        child_role (procs s2 ! nat (pid - 1)) \<noteq> Background"
      using lo hi r p2 by simp
  qed
  have k2: "list_all (\<lambda>pid. int (length (procs s)) < pid \<and> pid \<le> int (length (procs s2)) \<and>
                        child_role (procs s2 ! nat (pid - 1)) \<noteq> Background) (waited_pids ev2)"
    using w2 p1 unfolding list_all_iff by auto
  show ?thesis
    unfolding only_own_waits_def
    using advances_trans[OF a1 a2] k1 k2
    by (intro exI[of _ "cs1 @ cs2"] exI[of _ "ev1 @ ev2"] exI[of _ "p1 + p2"]) simp
qed

lemma pipe_setup_quiet:
  assumes "pipe_setup os b l s = Inl (code, s1)"
  shows "\<exists>ev p. advances s s1 [] ev p \<and> waited_pids ev = []"
proof -
  obtain r1 sa where p1: "sys_pipe os s = (r1, sa)" by (cases "sys_pipe os s")
  obtain r2 sb where p2: "sys_pipe os sa = (r2, sb)" by (cases "sys_pipe os sa")
  from assms p1 p2 have e: "s1 = emit (Ev_write 2 ''pipe'') sb"
    by (auto simp: pipe_setup_def split: if_splits option.splits)
  have "advances s s1 (([] @ []) @ []) (([Ev_pipe r1] @ [Ev_pipe r2]) @ [Ev_write 2 ''pipe''])
          (((if r1 = None then 0 else 1) + (if r2 = None then 0 else 1)) + 0)"
    unfolding e
    by (rule advances_trans[OF advances_trans[OF advances_pipe[OF p1] advances_pipe[OF p2]]
          advances_emit])
  then show ?thesis by (intro exI conjI, simp) simp
qed

lemma stage_quiet:
  assumes run: "executePipedCommand_stage os commands i l s = Inl (code, s')"
  shows "\<exists>cs ev p. advances s s' cs ev p \<and> waited_pids ev = []"
proof (cases "pipe_setup os (i < length commands - 1) l s")
  case (Inl e)
  then have "pipe_setup os (i < length commands - 1) l s = Inl (code, s')"
    using run by (simp add: executePipedCommand_stage_def)
  from pipe_setup_quiet[OF this] show ?thesis by blast
next
  case (Inr r)
  then obtain fd l1 s1 where ps: "pipe_setup os (i < length commands - 1) l s = Inr (fd, l1, s1)"
    by (cases r) auto
  from pipe_setup_book[OF ps] obtain ev1 where
    a1: "advances s s1 [] ev1 (if i < length commands - 1 then 1 else 0)"
    and w1: "waited_pids ev1 = []" by blast
  obtain pid s2 where fk: "sys_fork os (piped_child os commands i (in_fd l1) fd) s1 = (pid, s2)"
    by (cases "sys_fork os (piped_child os commands i (in_fd l1) fd) s1")
  have pid: "pid = -1" and e: "s' = emit (Ev_write 2 ''fork'') s2"
    using run ps fk
    by (auto simp: executePipedCommand_stage_def Let_def split: if_splits option.splits)
  have a2: "advances s1 s2 [] [Ev_fork pid] 0"
    using advances_fork[OF fk] pid by auto
  have "advances s s' (([] @ []) @ []) ((ev1 @ [Ev_fork pid]) @ [Ev_write 2 ''fork''])
          (((if i < length commands - 1 then 1 else 0) + 0) + 0)"
    unfolding e by (rule advances_trans[OF advances_trans[OF a1 a2] advances_emit])
  then show ?thesis using w1 by (intro exI conjI, simp) simp
qed

lemma loop_quiet:
  assumes "executePipedCommand_loop os commands js l s = Inl (code, s')"
  shows "\<exists>cs ev p. advances s s' cs ev p \<and> waited_pids ev = []"
  using assms
proof (induction js arbitrary: l s)
  case Nil
  then show ?case by simp
next
  case (Cons i js)
  show ?case
  proof (cases "executePipedCommand_stage os commands i l s")
    case (Inl e)
    then have "executePipedCommand_stage os commands i l s = Inl (code, s')"
      using Cons.prems by simp
    then show ?thesis by (rule stage_quiet)
  next
    case (Inr r)
    then obtain l1 s1 where st: "executePipedCommand_stage os commands i l s = Inr (l1, s1)"
      by (cases r) auto
    then have rest: "executePipedCommand_loop os commands js l1 s1 = Inl (code, s')"
      using Cons.prems by simp
    from stage_book[OF st] obtain c ev1 where
      a1: "advances s s1 [c] ev1 (if i < length commands - 1 then 1 else 0)"
      and w1: "waited_pids ev1 = []" by blast
    from Cons.IH[OF rest] obtain cs ev2 p where
      a2: "advances s1 s' cs ev2 p" and w2: "waited_pids ev2 = []" by blast
    have "waited_pids (ev1 @ ev2) = []" using w1 w2 by simp
    with advances_trans[OF a1 a2] show ?thesis by blast
  qed
qed

lemma final_simps [simp]: "final (Inl (code, s)) = s" "final (Inr s) = s"
  by (simp_all add: final_def)

lemma pipeline_own_waits: "only_own_waits s (final (executePipedCommand os tokens s))"
proof (cases "executePipedCommand os tokens s")
  case (Inl e)
  obtain code s1 where e: "e = (code, s1)" by (cases e)
  let ?cmds = "splitCommands tokens"
  have "executePipedCommand_loop os ?cmds [0..<length ?cmds]
          \<lparr>in_fd = STDIN_FILENO, fds_vec = [], child_pids = []\<rparr> s = Inl (code, s1)"
    using Inl e by (auto simp: executePipedCommand_def Let_def split: sum.splits)
  from loop_quiet[OF this] obtain cs ev p where "advances s s1 cs ev p" "waited_pids ev = []"
    by blast
  then show ?thesis using Inl e only_own_waits_quiet by simp
next
  case (Inr s')
  let ?n = "length (splitCommands tokens)"
  let ?P = "length (procs s)"
  from pipeline_book[OF Inr] obtain cs ev where
    a: "advances s s' cs (ev @ map Ev_waitpid (new_pids ?P ?n)) (?n - 1)"
    and r: "map child_role cs = map Stage [0..<?n]"
    and w: "waited_pids ev = []" by blast
  have len: "length cs = ?n" using r by (metis length_map length_upt minus_nat.diff_0)
  have ps: "procs s' = procs s @ cs" using a by (simp add: advances_def)
  have "list_all (\<lambda>pid. int ?P < pid \<and> pid \<le> int (length (procs s')) \<and>
                        child_role (procs s' ! nat (pid - 1)) \<noteq> Background) (new_pids ?P ?n)"
    unfolding list_all_iff new_pids_def
  proof
    fix pid assume "pid \<in> set (map (\<lambda>k. int (?P + k) + 1) [0..<?n])"
    then obtain k where k: "k < ?n" and pid: "pid = int (?P + k) + 1" by auto
    have idx: "nat (pid - 1) = ?P + k" using pid by simp
    have "child_role (cs ! k) = map child_role cs ! k" using k len by simp
    also have "\<dots> = Stage k" using r k by simp
    finally have "child_role (procs s' ! nat (pid - 1)) = Stage k"
      using idx ps by (simp add: nth_append)
    then show "int ?P < pid \<and> pid \<le> int (length (procs s')) \<and>
                        child_role (procs s' ! nat (pid - 1)) \<noteq> Background"
      using pid k ps len by simp
  qed
  then show ?thesis
    unfolding only_own_waits_def using a w Inr
    by (intro exI[of _ cs] exI[of _ "ev @ map Ev_waitpid (new_pids ?P ?n)"] exI[of _ "?n - 1"])
       (simp add: waited_pids_waits)
qed

lemma advances_dup: "sys_dup fd s = (n, s') \<Longrightarrow> advances s s' [] [Ev_dup fd n] 0"
  by (auto simp: sys_dup_def advances_def emit_def split: prod.splits)

lemma advances_dup2: "advances s (sys_dup2 a b s) [] [Ev_dup2 a b] 0"
  by (simp add: sys_dup2_def advances_def emit_def)

lemma save_streams_quiet:
  assumes "save_streams tokens s = (a, b, s2)"
  shows "\<exists>ev. advances s s2 [] ev 0 \<and> waited_pids ev = []"
proof -
  obtain s1 where d1: "(if findTokenIndex tokens ''>'' \<noteq> -1 then sys_dup STDOUT_FILENO s else (-1, s)) = (a, s1)"
    and d2: "(if findTokenIndex tokens ''<'' \<noteq> -1 then sys_dup STDIN_FILENO s1 else (-1, s1)) = (b, s2)"
    using assms by (auto simp: save_streams_def Let_def split: prod.splits)
  have "\<exists>ev. advances s s1 [] ev 0 \<and> waited_pids ev = []"
  proof (cases "findTokenIndex tokens ''>'' \<noteq> -1")
    case True
    then have "advances s s1 [] [Ev_dup STDOUT_FILENO a] 0" using d1 advances_dup by simp
    then show ?thesis by (intro exI[of _ "[Ev_dup STDOUT_FILENO a]"]) simp
  next
    case False
    then show ?thesis using d1 advances_refl[of s] by (intro exI[of _ "[]"]) auto
  qed
  then obtain ev1 where a1: "advances s s1 [] ev1 0" and w1: "waited_pids ev1 = []" by blast
  have "\<exists>ev. advances s1 s2 [] ev 0 \<and> waited_pids ev = []"
  proof (cases "findTokenIndex tokens ''<'' \<noteq> -1")
    case True
    then have "advances s1 s2 [] [Ev_dup STDIN_FILENO b] 0" using d2 advances_dup by simp
    then show ?thesis by (intro exI[of _ "[Ev_dup STDIN_FILENO b]"]) simp
  next
    case False
    then show ?thesis using d2 advances_refl[of s1] by (intro exI[of _ "[]"]) auto
  qed
  then obtain ev2 where a2: "advances s1 s2 [] ev2 0" and w2: "waited_pids ev2 = []" by blast
  have "waited_pids (ev1 @ ev2) = []" using w1 w2 by simp
  with advances_trans[OF a1 a2] show ?thesis by (intro exI[of _ "ev1 @ ev2"]) simp
qed

lemma restore_streams_quiet:
  "\<exists>ev. advances s (restore_streams a b s) [] ev 0 \<and> waited_pids ev = []"
proof -
  define s1 where "s1 = (if a \<noteq> -1 then sys_close a (sys_dup2 a STDOUT_FILENO s) else s)"
  have "\<exists>ev. advances s s1 [] ev 0 \<and> waited_pids ev = []"
  proof (cases "a \<noteq> -1")
    case True
    have e: "s1 = sys_close a (sys_dup2 a STDOUT_FILENO s)" using True by (simp add: s1_def)
    have "advances s s1 ([] @ []) ([Ev_dup2 a STDOUT_FILENO] @ [Ev_close a]) (0 + 0)"
      unfolding e by (rule advances_trans[OF advances_dup2 advances_close])
    then show ?thesis by (intro exI[of _ "[Ev_dup2 a STDOUT_FILENO] @ [Ev_close a]"]) simp
  next
    case False
    then show ?thesis using advances_refl[of s] by (intro exI[of _ "[]"]) (simp add: s1_def)
  qed
  then obtain ev1 where a1: "advances s s1 [] ev1 0" and w1: "waited_pids ev1 = []" by blast
  have r: "restore_streams a b s =
            (if b \<noteq> -1 then sys_close b (sys_dup2 b STDIN_FILENO s1) else s1)"
    by (simp add: restore_streams_def Let_def s1_def)
  have "\<exists>ev. advances s1 (restore_streams a b s) [] ev 0 \<and> waited_pids ev = []"
  proof (cases "b \<noteq> -1")
    case True
    have e: "restore_streams a b s = sys_close b (sys_dup2 b STDIN_FILENO s1)"
      using True by (simp add: r)
    have "advances s1 (restore_streams a b s) ([] @ []) ([Ev_dup2 b STDIN_FILENO] @ [Ev_close b]) (0 + 0)"
      unfolding e by (rule advances_trans[OF advances_dup2 advances_close])
    then show ?thesis by (intro exI[of _ "[Ev_dup2 b STDIN_FILENO] @ [Ev_close b]"]) simp
  next
    case False
    then have "restore_streams a b s = s1" using r by simp
    then show ?thesis using advances_refl[of s1] by (intro exI[of _ "[]"]) simp
  qed
  then obtain ev2 where a2: "advances s1 (restore_streams a b s) [] ev2 0"
    and w2: "waited_pids ev2 = []" by blast
  have "waited_pids (ev1 @ ev2) = []" using w1 w2 by simp
  with advances_trans[OF a1 a2] show ?thesis by (intro exI[of _ "ev1 @ ev2"]) simp
qed

lemma executeCommand_child_role: "child_role (executeCommand_child os tokens t) = Foreground"
  by (simp add: executeCommand_child_def Let_def split: sum.splits prod.splits)

lemma only_own_waits_emit: "waited_pids [e] = [] \<Longrightarrow> only_own_waits s (emit e s)"
  using only_own_waits_quiet[OF advances_emit] by simp

lemma only_own_waits_emit2:
  "waited_pids [e1] = [] \<Longrightarrow> waited_pids [e2] = [] \<Longrightarrow> only_own_waits s (emit e2 (emit e1 s))"
  using only_own_waits_trans[OF only_own_waits_emit only_own_waits_emit] by blast

lemma command_own_waits: "only_own_waits s (final (executeCommand os tokens s))"
proof -
  obtain pid s1 where fk: "sys_fork os (executeCommand_child os tokens) s = (pid, s1)"
    by (cases "sys_fork os (executeCommand_child os tokens) s")
  show ?thesis
  proof (cases "pid = -1")
    case True
    then have a: "advances s s1 [] [Ev_fork pid] 0" using advances_fork[OF fk] by auto
    have "advances s (emit (Ev_write 2 ''Failed to fork process'') s1) ([] @ [])
            ([Ev_fork pid] @ [Ev_write 2 ''Failed to fork process'']) (0 + 0)"
      by (rule advances_trans[OF a advances_emit])
    then have "only_own_waits s (emit (Ev_write 2 ''Failed to fork process'') s1)"
      by (rule only_own_waits_quiet) simp
    then show ?thesis using fk True by (simp add: executeCommand_def)
  next
    case False
    let ?c = "executeCommand_child os tokens (fds s)"
    have pid: "pid = int (length (procs s)) + 1" and a1: "advances s s1 [?c] [Ev_fork pid] 0"
      using advances_fork[OF fk] False by auto
    obtain a b s2 where sv: "save_streams tokens s1 = (a, b, s2)"
      by (cases "save_streams tokens s1") auto
    from save_streams_quiet[OF sv] obtain ev2 where
      a2: "advances s1 s2 [] ev2 0" and w2: "waited_pids ev2 = []" by blast
    let ?s3 = "snd (sys_waitpid os pid s2)"
    have a3: "advances s2 ?s3 [] [Ev_waitpid pid] 0"
      by (simp add: sys_waitpid_def advances_emit)
    from restore_streams_quiet[of ?s3 a b] obtain ev4 where
      a4: "advances ?s3 (restore_streams a b ?s3) [] ev4 0" and w4: "waited_pids ev4 = []"
      by blast
    let ?s' = "restore_streams a b ?s3"
    have fin: "final (executeCommand os tokens s) = ?s'"
      using fk False sv by (simp add: executeCommand_def split: prod.splits)
    have all: "advances s ?s' ((([?c] @ []) @ []) @ [])
                 ((([Ev_fork pid] @ ev2) @ [Ev_waitpid pid]) @ ev4) (((0 + 0) + 0) + 0)"
      by (rule advances_trans[OF advances_trans[OF advances_trans[OF a1 a2] a3] a4])
    then have ps: "procs ?s' = procs s @ [?c]" by (simp add: advances_def)
    have wp: "waited_pids ((([Ev_fork pid] @ ev2) @ [Ev_waitpid pid]) @ ev4) = [pid]"
      using w2 w4 by simp
    have ok: "int (length (procs s)) < pid \<and> pid \<le> int (length (procs ?s')) \<and>
          child_role (procs ?s' ! nat (pid - 1)) \<noteq> Background"
      using pid ps by (simp add: executeCommand_child_role)
    have la: "list_all (\<lambda>pid. int (length (procs s)) < pid \<and> pid \<le> int (length (procs ?s')) \<and>
          child_role (procs ?s' ! nat (pid - 1)) \<noteq> Background)
        (waited_pids ((([Ev_fork pid] @ ev2) @ [Ev_waitpid pid]) @ ev4))"
      unfolding wp using ok by simp
    show ?thesis
      unfolding only_own_waits_def fin using all la by blast
  qed
qed

lemma background_own_waits: "only_own_waits s (executeCommandInBackground os tokens s)"
proof -
  let ?body = "\<lambda>t. \<lparr>child_role = Background, child_fds = t, child_err = [],
                      child_end = Execvp (segment_args tokens)\<rparr>"
  obtain pid s1 where fk: "sys_fork os ?body s = (pid, s1)" by (cases "sys_fork os ?body s")
  from advances_fork[OF fk] obtain cs where "advances s s1 cs [Ev_fork pid] 0" by blast
  then have "only_own_waits s s1" by (rule only_own_waits_quiet) simp
  then show ?thesis using fk by (simp add: executeCommandInBackground_def)
qed

lemma assignment_own_waits: "only_own_waits s (handleVariableAssignment input s)"
  by (simp add: handleVariableAssignment_def Let_def only_own_waits_emit)

lemma dispatch_own_waits: "only_own_waits s (final (dispatch os input tokens s))"
  by (simp add: dispatch_def Let_def command_own_waits pipeline_own_waits assignment_own_waits
      only_own_waits_emit only_own_waits_emit2 only_own_waits_refl)

lemma line_own_waits: "only_own_waits s (final (mish_line os line s))"
proof -
  have bg: "only_own_waits s (final (dispatch os inp toks (executeCommandInBackground os toks s)))"
    for inp toks
    by (rule only_own_waits_trans[OF background_own_waits dispatch_own_waits])
  show ?thesis
    by (simp add: mish_line_def Let_def only_own_waits_refl dispatch_own_waits bg)
qed

lemma loop_own_waits: "only_own_waits s (snd (mish_loop os lines s))"
proof (induction lines arbitrary: s)
  case Nil
  then show ?case by (simp add: only_own_waits_emit)
next
  case (Cons line rest)
  let ?s0 = "emit Ev_prompt s"
  have p: "only_own_waits s ?s0" by (simp add: only_own_waits_emit)
  have l: "only_own_waits ?s0 (final (mish_line os line ?s0))" by (rule line_own_waits)
  show ?case
  proof (cases "mish_line os line ?s0")
    case (Inl e)
    then have "snd (mish_loop os (line # rest) s) = final (mish_line os line ?s0)"
      by (cases e) simp
    then show ?thesis using only_own_waits_trans[OF p l] by simp
  next
    case (Inr s1)
    then have "snd (mish_loop os (line # rest) s) = snd (mish_loop os rest s1)" by simp
    moreover have "only_own_waits ?s0 s1" using l Inr by simp
    ultimately show ?thesis
      using only_own_waits_trans[OF only_own_waits_trans[OF p] Cons.IH[of s1]] by simp
  qed
qed

text \<open>
  C7, as the code has it. \<open>executeCommandInBackground\<close> drops the process id it gets from
  \<open>fork\<close>, and the control loop never waits for a background process: over any sequence
  of input lines, from any shell, every process the loop waits for was spawned by the loop
  itself as a foreground command or a pipeline stage. From a fresh shell, no process id
  ever passed to \<open>waitpid\<close> belongs to a background process; a terminated background
  process stays unreaped for as long as the shell runs.
\<close>

theorem background_never_waited_for:
  "only_own_waits s (snd (mish_loop os lines s)) \<and>
   list_all (\<lambda>pid. 0 < pid \<and> pid \<le> int (length (procs (snd (mish_loop os lines shell0)))) \<and>
                   child_role (procs (snd (mish_loop os lines shell0)) ! nat (pid - 1)) \<noteq> Background)
     (waited_pids (trace (snd (mish_loop os lines shell0))))"
proof
  show "only_own_waits s (snd (mish_loop os lines s))" by (rule loop_own_waits)
  let ?s' = "snd (mish_loop os lines shell0)"
  from loop_own_waits[of shell0 os lines] obtain cs ev p where
    a: "advances shell0 ?s' cs ev p"
    and w: "list_all (\<lambda>pid. int (length (procs shell0)) < pid \<and> pid \<le> int (length (procs ?s')) \<and>
                        child_role (procs ?s' ! nat (pid - 1)) \<noteq> Background) (waited_pids ev)"
    unfolding only_own_waits_def by blast
  have "trace ?s' = ev" using a by (simp add: advances_def shell0_def)
  then show "list_all (\<lambda>pid. 0 < pid \<and> pid \<le> int (length (procs ?s')) \<and>
                   child_role (procs ?s' ! nat (pid - 1)) \<noteq> Background) (waited_pids (trace ?s'))"
    using w by (simp add: shell0_def)
qed

text \<open>
  The claim as stated has every background process reaped at a later opportunity. After
  \<open>sleep 1 &\<close> the shell runs two more commands and reaches the end of its input; it
  waited for processes 2, 3 and 4, and never for the background process 1.
\<close>

theorem background_unreaped_counterexample:
  "(case mish_loop os_ok [''sleep 1 &'', ''ls'', ''ls''] shell0 of
      (code, s) \<Rightarrow> (code, map child_role (procs s), waited_pids (trace s))) =
   (0, [Background, Foreground, Foreground, Foreground], [2, 3, 4])"
  by code_simp

section \<open>The pipes of a pipeline and the processes they connect\<close>

subsection \<open>What a stage's child binds to its standard streams\<close>

lemma pipe_ends_stdout:
  assumes "i < n - 1" "w \<noteq> 0" "w \<noteq> 1" "r \<noteq> 1" "w \<noteq> infd" "fd_lookup t1 w = Some d"
  shows "fd_lookup (piped_pipe_ends i n infd (Some (r, w)) t1) 1 = Some d"
  using assms
  by (simp add: piped_pipe_ends_def Let_def fd_lookup_close fd_lookup_dup2
      STDIN_FILENO_def STDOUT_FILENO_def split: option.splits)

lemma pipe_ends_stdin:
  assumes "infd \<noteq> 0" "fd_lookup t1 infd = Some d"
    and "i < n - 1 \<Longrightarrow> \<exists>r w. fd = Some (r, w) \<and> r \<noteq> 0 \<and> w \<noteq> 0"
  shows "fd_lookup (piped_pipe_ends i n infd fd t1) 0 = Some d"
proof (cases "i < n - 1")
  case False
  then show ?thesis using assms(1,2)
    by (simp add: piped_pipe_ends_def Let_def fd_lookup_close fd_lookup_dup2
        STDIN_FILENO_def STDOUT_FILENO_def)
next
  case True
  with assms(3) obtain r w where "fd = Some (r, w)" "r \<noteq> 0" "w \<noteq> 0" by blast
  then show ?thesis using assms(1,2) True
    by (simp add: piped_pipe_ends_def Let_def fd_lookup_close fd_lookup_dup2
        STDIN_FILENO_def STDOUT_FILENO_def split: option.splits)
qed

lemma output_redirect_not_last:
  "piped_output_redirect os False cmd t3 = (t3, [], Execvp (segment_args cmd))"
  by (simp add: piped_output_redirect_def)

lemma output_redirect_stdin:
  assumes "fd_lookup t3 0 = Some d"
  shows "fd_lookup (fst (piped_output_redirect os is_last cmd t3)) 0 = Some d"
proof -
  have "int (lowest_free t3) \<noteq> 0"
  proof
    assume "int (lowest_free t3) = 0"
    then have "fd_lookup t3 0 = None" using lowest_free_free[of t3] by simp
    with assms show False by simp
  qed
  then show ?thesis using assms
    by (simp add: piped_output_redirect_def Let_def fd_open_def fd_lookup_close fd_lookup_dup2
        fd_lookup_bind STDOUT_FILENO_def split: prod.splits)
qed

lemma input_redirect_keeps:
  assumes "piped_input_redirect os cmd infd t = (infd1, cmd1, err, t1)"
  shows "(infd1 = infd \<or> fd_lookup t infd1 = None) \<and>
         (\<forall>m d. m \<noteq> 0 \<longrightarrow> fd_lookup t m = Some d \<longrightarrow> fd_lookup t1 m = Some d)"
proof (cases "findTokenIndex cmd ''<'' \<noteq> -1 \<and> findTokenIndex cmd ''<'' + 1 < int (length cmd)")
  case False
  then show ?thesis using assms by (auto simp: piped_input_redirect_def Let_def)
next
  case True
  let ?path = "cmd ! nat (findTokenIndex cmd ''<'' + 1)"
  show ?thesis
  proof (cases "can_open os ?path O_RDONLY")
    case no: False
    then have "infd1 = -1" "t1 = fd_close (fd_dup2 t (-1) STDIN_FILENO) (-1)"
      using assms True by (auto simp: piped_input_redirect_def Let_def fd_open_def)
    then show ?thesis
      by (simp add: fd_lookup_close fd_lookup_dup2 fd_lookup_negative)
  next
    case yes: True
    let ?n = "int (lowest_free t)"
    have "infd1 = ?n"
      "t1 = fd_close (fd_dup2 (fd_bind t (lowest_free t) (OpenFile ?path O_RDONLY)) ?n STDIN_FILENO) ?n"
      using assms True yes by (auto simp: piped_input_redirect_def Let_def fd_open_def)
    then show ?thesis using lowest_free_free[of t]
      by (auto simp: fd_lookup_close fd_lookup_dup2 fd_lookup_bind STDIN_FILENO_def)
  qed
qed

lemma first_child_stdout:
  assumes nl: "0 < length commands - 1" and w: "w \<noteq> 0" "w \<noteq> 1" and r: "r \<noteq> 1"
    and b: "fd_lookup t w = Some d"
  shows "fd_lookup (child_fds (piped_child os commands 0 0 (Some (r, w)) t)) 1 = Some d"
proof -
  obtain infd1 cmd1 err t1 where ir:
    "piped_input_redirect os (commands ! 0) 0 t = (infd1, cmd1, err, t1)"
    by (cases "piped_input_redirect os (commands ! 0) 0 t") auto
  from input_redirect_keeps[OF ir] have k: "infd1 = 0 \<or> fd_lookup t infd1 = None"
    and b1: "fd_lookup t1 w = Some d" using w b by auto
  have ne: "w \<noteq> infd1" using k w b by auto
  have nl': "\<not> (0 = length commands - 1)" using nl by simp
  have "fd_lookup (piped_pipe_ends 0 (length commands) infd1 (Some (r, w)) t1) 1 = Some d"
    using nl w r ne b1 by (rule pipe_ends_stdout)
  then show ?thesis using ir nl'
    by (simp add: piped_child_def output_redirect_not_last)
qed

lemma later_child_stdin:
  assumes i: "0 < i" and fi: "infd \<noteq> 0" and b: "fd_lookup t infd = Some d"
    and fd: "i < length commands - 1 \<Longrightarrow> \<exists>r w. fd = Some (r, w) \<and> r \<noteq> 0 \<and> w \<noteq> 0"
  shows "fd_lookup (child_fds (piped_child os commands i infd fd t)) 0 = Some d"
proof -
  have "fd_lookup (piped_pipe_ends i (length commands) infd fd t) 0 = Some d"
    using fi b fd by (rule pipe_ends_stdin)
  then have o: "fd_lookup (fst (piped_output_redirect os (i = length commands - 1) (commands ! i)
      (piped_pipe_ends i (length commands) infd fd t))) 0 = Some d"
    by (rule output_redirect_stdin)
  obtain t4 err' e where po: "piped_output_redirect os (i = length commands - 1) (commands ! i)
      (piped_pipe_ends i (length commands) infd fd t) = (t4, err', e)"
    by (cases "piped_output_redirect os (i = length commands - 1) (commands ! i)
      (piped_pipe_ends i (length commands) infd fd t)") auto
  have "fd_lookup t4 0 = Some d" using o po by simp
  then show ?thesis using i po
    by (simp add: piped_child_def)
qed

lemma later_child_stdout:
  assumes i: "0 < i" and nl: "i < length commands - 1"
    and w: "w \<noteq> 0" "w \<noteq> 1" "w \<noteq> infd" and r: "r \<noteq> 1"
    and b: "fd_lookup t w = Some d"
  shows "fd_lookup (child_fds (piped_child os commands i infd (Some (r, w)) t)) 1 = Some d"
proof -
  have nl': "i \<noteq> length commands - 1" using nl by simp
  have "fd_lookup (piped_pipe_ends i (length commands) infd (Some (r, w)) t) 1 = Some d"
    using nl w(1,2) r w(3) b by (rule pipe_ends_stdout)
  then show ?thesis using i nl'
    by (simp add: piped_child_def output_redirect_not_last)
qed

subsection \<open>The parent's descriptor table from stage to stage\<close>

lemma fd_lookup_close_fun: "fd_lookup (fd_close t fd) = (fd_lookup t)(fd := None)"
  by (simp add: fun_eq_iff fd_lookup_close)

lemma fd_pipe_facts:
  assumes "fd_pipe t k = (r, w, t')"
  shows "fd_lookup t r = None \<and> fd_lookup t w = None \<and> r \<noteq> w \<and>
         fd_lookup t' = (fd_lookup t)(r := Some (PipeRead k), w := Some (PipeWrite k))"
proof -
  let ?t1 = "fd_bind t (lowest_free t) (PipeRead k)"
  have r: "r = int (lowest_free t)" and w: "w = int (lowest_free ?t1)"
    and t': "t' = fd_bind ?t1 (lowest_free ?t1) (PipeWrite k)"
    using assms by (auto simp: fd_pipe_def Let_def)
  have fr: "fd_lookup t r = None" unfolding r by (rule lowest_free_free)
  have fw1: "fd_lookup ?t1 w = None" unfolding w by (rule lowest_free_free)
  have ne: "r \<noteq> w" using fw1 by (auto simp: fd_lookup_bind r)
  have fw: "fd_lookup t w = None" using fw1 ne by (simp add: fd_lookup_bind r split: if_splits)
  have "fd_lookup t' = (fd_lookup t)(r := Some (PipeRead k), w := Some (PipeWrite k))"
    unfolding t' by (auto simp: fun_eq_iff fd_lookup_bind r w)
  then show ?thesis using fr fw ne by simp
qed

lemma sys_pipe_failed: "sys_pipe os s = (None, s') \<Longrightarrow>
   fds s' = fds s \<and> pipes_made s' = pipes_made s \<and> procs s' = procs s"
  by (auto simp: sys_pipe_def emit_def split: if_splits prod.splits)

lemma sys_pipe_made:
  assumes "sys_pipe os s = (Some (r, w), s')"
  shows "fd_lookup (fds s) r = None \<and> fd_lookup (fds s) w = None \<and> r \<noteq> w \<and>
         fd_lookup (fds s') =
           (fd_lookup (fds s))(r := Some (PipeRead (pipes_made s)),
                               w := Some (PipeWrite (pipes_made s))) \<and>
         pipes_made s' = pipes_made s + 1 \<and> procs s' = procs s"
proof -
  obtain t where fp: "fd_pipe (fds s) (pipes_made s) = (r, w, t)"
    and s': "s' = emit (Ev_pipe (Some (r, w)))
                    (s\<lparr>fds := t, pipe_calls := pipe_calls s + 1, pipes_made := pipes_made s + 1\<rparr>)"
    using assms by (auto simp: sys_pipe_def split: if_splits prod.splits)
  show ?thesis using fd_pipe_facts[OF fp] by (simp add: s' emit_def)
qed

lemma pipe_setup_made:
  assumes "pipe_setup os True l s = Inr (fd, l1, s1)"
  shows "\<exists>r w. fd = Some (r, w) \<and>
           fd_lookup (fds s) r = None \<and> fd_lookup (fds s) w = None \<and> r \<noteq> w \<and>
           fd_lookup (fds s1) =
             (fd_lookup (fds s))(r := Some (PipeRead (pipes_made s)),
                                 w := Some (PipeWrite (pipes_made s))) \<and>
           pipes_made s1 = pipes_made s + 1 \<and> procs s1 = procs s \<and> in_fd l1 = in_fd l"
proof -
  obtain r1 sa where p1: "sys_pipe os s = (r1, sa)" by (cases "sys_pipe os s")
  show ?thesis
  proof (cases r1)
    case (Some f)
    obtain r w where f: "f = (r, w)" by (cases f)
    have "fd = Some (r, w)" "l1 = l" "s1 = sa"
      using assms p1 Some f by (auto simp: pipe_setup_def)
    then show ?thesis using sys_pipe_made[of os s r w sa] p1 Some f by simp
  next
    case None
    obtain r2 sb where p2: "sys_pipe os sa = (r2, sb)" by (cases "sys_pipe os sa")
    from assms p1 None p2 obtain r w where r2: "r2 = Some (r, w)"
      and e: "fd = Some (r, w)" "l1 = l\<lparr>fds_vec := fds_vec l @ [r, w]\<rparr>" "s1 = sb"
      by (auto simp: pipe_setup_def split: option.splits)
    have same: "fds sa = fds s" "pipes_made sa = pipes_made s" "procs sa = procs s"
      using sys_pipe_failed[of os s sa] p1 None by simp_all
    show ?thesis using sys_pipe_made[of os sa r w sb] p2 r2 e same by simp
  qed
qed

lemma sys_fork_spawned:
  assumes "sys_fork os body s = (pid, s')" "pid \<noteq> -1"
  shows "procs s' = procs s @ [body (fds s)] \<and> fds s' = fds s \<and> pipes_made s' = pipes_made s"
  using assms by (auto simp: sys_fork_def emit_def Let_def split: if_splits)

lemma sys_close_facts:
  "fds (sys_close fd s) = fd_close (fds s) fd \<and> procs (sys_close fd s) = procs s \<and>
   pipes_made (sys_close fd s) = pipes_made s"
  by (simp add: sys_close_def emit_def)

lemma stage_wired_not_last:
  assumes wd: "wired T0 M0 i l s"
    and std: "fd_lookup T0 0 \<noteq> None" "fd_lookup T0 1 \<noteq> None"
    and nl: "i < length commands - 1"
    and run: "executePipedCommand_stage os commands i l s = Inr (l', s')"
  shows "wired T0 M0 (Suc i) l' s' \<and>
         (\<exists>c. procs s' = procs s @ [c] \<and>
              fd_lookup (child_fds c) 1 = Some (PipeWrite (M0 + i)) \<and>
              (0 < i \<longrightarrow> fd_lookup (child_fds c) 0 = Some (PipeRead (M0 + i - 1))))"
proof -
  obtain fd l1 s1 where ps: "pipe_setup os True l s = Inr (fd, l1, s1)"
    using run nl by (auto simp: executePipedCommand_stage_def split: sum.splits)
  from pipe_setup_made[OF ps] obtain r w where fd: "fd = Some (r, w)"
    and fr: "fd_lookup (fds s) r = None" and fw: "fd_lookup (fds s) w = None" and rw: "r \<noteq> w"
    and t1: "fd_lookup (fds s1) =
             (fd_lookup (fds s))(r := Some (PipeRead (pipes_made s)),
                                 w := Some (PipeWrite (pipes_made s)))"
    and m1: "pipes_made s1 = pipes_made s + 1" and p1: "procs s1 = procs s"
    and i1: "in_fd l1 = in_fd l" by blast
  have pm: "pipes_made s = M0 + i" using wd by (simp add: wired_def)
  let ?c = "piped_child os commands i (in_fd l1) fd (fds s1)"
  obtain pid s2 where fk: "sys_fork os (piped_child os commands i (in_fd l1) fd) s1 = (pid, s2)"
    by (cases "sys_fork os (piped_child os commands i (in_fd l1) fd) s1")
  have pidok: "pid \<noteq> -1"
    using run ps fk nl by (auto simp: executePipedCommand_stage_def split: if_splits)
  from sys_fork_spawned[OF fk pidok] have p2: "procs s2 = procs s @ [?c]"
    and t2: "fds s2 = fds s1" and m2: "pipes_made s2 = pipes_made s + 1"
    using p1 m1 by simp_all
  define s3 where "s3 = (if in_fd l1 \<noteq> STDIN_FILENO then sys_close (in_fd l1) s2 else s2)"
  have e: "l' = l1\<lparr>child_pids := child_pids l1 @ [pid], in_fd := r\<rparr>" "s' = sys_close w s3"
    using run ps fk pidok nl fd
    by (auto simp: executePipedCommand_stage_def Let_def s3_def)
  have p3: "procs s3 = procs s @ [?c]" and m3: "pipes_made s3 = pipes_made s + 1"
    using p2 m2 by (simp_all add: s3_def sys_close_facts)
  have ps': "procs s' = procs s @ [?c]" and ms': "pipes_made s' = M0 + Suc i"
    using p3 m3 pm by (simp_all add: e sys_close_facts)
  have inl': "in_fd l' = r" by (simp add: e)
  show ?thesis
  proof (cases "i = 0")
    case True
    have in0: "in_fd l = 0" and ts: "fd_lookup (fds s) = fd_lookup T0"
      using wd True by (simp_all add: wired_def STDIN_FILENO_def)
    have r01: "r \<noteq> 0 \<and> r \<noteq> 1" and w01: "w \<noteq> 0 \<and> w \<noteq> 1"
      using fr fw ts std by auto
    have bw: "fd_lookup (fds s1) w = Some (PipeWrite (M0 + i))" using t1 pm by simp
    have out: "fd_lookup (child_fds ?c) 1 = Some (PipeWrite (M0 + i))"
      using first_child_stdout[of commands w r "fds s1" "PipeWrite (M0 + i)" os]
        nl True w01 r01 bw fd i1 in0 by simp
    have s3: "s3 = s2" using i1 in0 by (simp add: s3_def STDIN_FILENO_def)
    have "fd_lookup (fds s') = (fd_lookup T0)(r := Some (PipeRead (M0 + i)))"
      using fw ts rw by (auto simp: e s3 sys_close_facts fd_lookup_close_fun t2 t1 pm fun_eq_iff)
    then have "wired T0 M0 (Suc i) l' s'"
      using ms' inl' r01 fr ts by (simp add: wired_def)
    then show ?thesis using ps' out True by blast
  next
    case False
    let ?f = "in_fd l"
    have f0: "?f \<noteq> 0" and f1: "?f \<noteq> 1" and ff: "fd_lookup T0 ?f = None"
      and ts: "fd_lookup (fds s) = (fd_lookup T0)(?f := Some (PipeRead (M0 + i - 1)))"
      using wd False by (simp_all add: wired_def)
    have rf: "r \<noteq> ?f" and wf: "w \<noteq> ?f" using fr fw ts by auto
    have fr0: "fd_lookup T0 r = None" and fw0: "fd_lookup T0 w = None"
      using fr fw ts rf wf by (auto simp: fun_eq_iff split: if_splits)
    have r01: "r \<noteq> 0 \<and> r \<noteq> 1" and w01: "w \<noteq> 0 \<and> w \<noteq> 1"
      using fr0 fw0 std by auto
    have bw: "fd_lookup (fds s1) w = Some (PipeWrite (M0 + i))" using t1 pm by simp
    have bf: "fd_lookup (fds s1) ?f = Some (PipeRead (M0 + i - 1))"
      using t1 ts rf wf by simp
    have out: "fd_lookup (child_fds ?c) 1 = Some (PipeWrite (M0 + i))"
      using later_child_stdout[of i commands w ?f r "fds s1" "PipeWrite (M0 + i)" os]
        False nl w01 wf r01 bw fd i1 by simp
    have inp: "fd_lookup (child_fds ?c) 0 = Some (PipeRead (M0 + i - 1))"
      using later_child_stdin[of i ?f "fds s1" "PipeRead (M0 + i - 1)" commands fd os]
        False f0 bf fd r01 w01 i1 by simp
    have s3: "s3 = sys_close ?f s2" using i1 f0 by (simp add: s3_def STDIN_FILENO_def)
    have "fd_lookup (fds s') = (fd_lookup T0)(r := Some (PipeRead (M0 + i)))"
      using fw0 ff rw rf wf
      by (auto simp: e s3 sys_close_facts fd_lookup_close_fun t2 t1 ts pm fun_eq_iff)
    then have "wired T0 M0 (Suc i) l' s'"
      using ms' inl' r01 fr0 by (simp add: wired_def)
    then show ?thesis using ps' out inp by blast
  qed
qed

lemma stage_wired_last:
  assumes wd: "wired T0 M0 i l s"
    and last: "\<not> i < length commands - 1"
    and run: "executePipedCommand_stage os commands i l s = Inr (l', s')"
  shows "\<exists>c. procs s' = procs s @ [c] \<and>
              (0 < i \<longrightarrow> fd_lookup (child_fds c) 0 = Some (PipeRead (M0 + i - 1)))"
proof -
  have ps: "pipe_setup os (i < length commands - 1) l s = Inr (None, l, s)"
    using last by (simp add: pipe_setup_def)
  let ?c = "piped_child os commands i (in_fd l) None (fds s)"
  obtain pid s2 where fk: "sys_fork os (piped_child os commands i (in_fd l) None) s = (pid, s2)"
    by (cases "sys_fork os (piped_child os commands i (in_fd l) None) s")
  have pidok: "pid \<noteq> -1"
    using run ps fk by (auto simp: executePipedCommand_stage_def split: if_splits)
  from sys_fork_spawned[OF fk pidok] have p2: "procs s2 = procs s @ [?c]" by simp
  have "s' = (if in_fd l \<noteq> STDIN_FILENO then sys_close (in_fd l) s2 else s2)"
    using run ps fk pidok last by (auto simp: executePipedCommand_stage_def Let_def)
  then have ps': "procs s' = procs s @ [?c]" using p2 by (simp add: sys_close_facts)
  have "0 < i \<longrightarrow> fd_lookup (child_fds ?c) 0 = Some (PipeRead (M0 + i - 1))"
  proof
    assume i: "0 < i"
    then have f0: "in_fd l \<noteq> 0"
      and ts: "fd_lookup (fds s) = (fd_lookup T0)(in_fd l := Some (PipeRead (M0 + i - 1)))"
      using wd by (simp_all add: wired_def)
    have bf: "fd_lookup (fds s) (in_fd l) = Some (PipeRead (M0 + i - 1))" using ts by simp
    show "fd_lookup (child_fds ?c) 0 = Some (PipeRead (M0 + i - 1))"
      using later_child_stdin[of i "in_fd l" "fds s" "PipeRead (M0 + i - 1)" commands None os]
        i f0 bf last by simp
  qed
  then show ?thesis using ps' by blast
qed

lemma loop_wired:
  assumes std: "fd_lookup T0 0 \<noteq> None" "fd_lookup T0 1 \<noteq> None"
    and N: "N = length commands"
  shows "wired T0 M0 j l s \<Longrightarrow> j \<le> N \<Longrightarrow>
         executePipedCommand_loop os commands [j..<N] l s = Inr (l', s') \<Longrightarrow>
         \<exists>cs. procs s' = procs s @ cs \<and> length cs = N - j \<and>
           (\<forall>k. k < N - j \<longrightarrow>
              (j + k < N - 1 \<longrightarrow> fd_lookup (child_fds (cs ! k)) 1 = Some (PipeWrite (M0 + (j + k)))) \<and>
              (0 < j + k \<longrightarrow> fd_lookup (child_fds (cs ! k)) 0 = Some (PipeRead (M0 + (j + k) - 1))))"
proof (induction "N - j" arbitrary: j l s)
  case 0
  then have "j = N" by simp
  then show ?case using "0.prems" by simp
next
  case (Suc d)
  then have jN: "j < N" by simp
  then have up: "[j..<N] = j # [Suc j..<N]" by (rule upt_conv_Cons)
  from Suc.prems(3) obtain l1 s1 where
    st: "executePipedCommand_stage os commands j l s = Inr (l1, s1)"
    and rest: "executePipedCommand_loop os commands [Suc j..<N] l1 s1 = Inr (l', s')"
    unfolding up by (auto split: sum.splits)
  show ?case
  proof (cases "j < N - 1")
    case True
    then have nl: "j < length commands - 1" using N by simp
    from stage_wired_not_last[OF Suc.prems(1) std nl st] obtain c where
      w1: "wired T0 M0 (Suc j) l1 s1" and p1: "procs s1 = procs s @ [c]"
      and o: "fd_lookup (child_fds c) 1 = Some (PipeWrite (M0 + j))"
      and i: "0 < j \<longrightarrow> fd_lookup (child_fds c) 0 = Some (PipeRead (M0 + j - 1))"
      by blast
    have d: "d = N - Suc j" using Suc.hyps(2) by simp
    from Suc.hyps(1)[OF d w1 _ rest] jN obtain cs where
      p2: "procs s' = procs s1 @ cs" and len: "length cs = N - Suc j"
      and f: "\<forall>k. k < N - Suc j \<longrightarrow>
              (Suc j + k < N - 1 \<longrightarrow> fd_lookup (child_fds (cs ! k)) 1 = Some (PipeWrite (M0 + (Suc j + k)))) \<and>
              (0 < Suc j + k \<longrightarrow> fd_lookup (child_fds (cs ! k)) 0 = Some (PipeRead (M0 + (Suc j + k) - 1)))"
      by auto
    have all: "\<forall>k. k < N - j \<longrightarrow>
              (j + k < N - 1 \<longrightarrow> fd_lookup (child_fds ((c # cs) ! k)) 1 = Some (PipeWrite (M0 + (j + k)))) \<and>
              (0 < j + k \<longrightarrow> fd_lookup (child_fds ((c # cs) ! k)) 0 = Some (PipeRead (M0 + (j + k) - 1)))"
    proof (intro allI impI)
      fix k assume k: "k < N - j"
      show "(j + k < N - 1 \<longrightarrow> fd_lookup (child_fds ((c # cs) ! k)) 1 = Some (PipeWrite (M0 + (j + k)))) \<and>
              (0 < j + k \<longrightarrow> fd_lookup (child_fds ((c # cs) ! k)) 0 = Some (PipeRead (M0 + (j + k) - 1)))"
      proof (cases k)
        case 0
        then show ?thesis using o i by simp
      next
        case (Suc k')
        then have "k' < N - Suc j" using k by simp
        with f have "(Suc j + k' < N - 1 \<longrightarrow> fd_lookup (child_fds (cs ! k')) 1 = Some (PipeWrite (M0 + (Suc j + k')))) \<and>
              (0 < Suc j + k' \<longrightarrow> fd_lookup (child_fds (cs ! k')) 0 = Some (PipeRead (M0 + (Suc j + k') - 1)))"
          by blast
        then show ?thesis using Suc by simp
      qed
    qed
    show ?thesis
      using p1 p2 len jN all by (intro exI[of _ "c # cs"]) simp
  next
    case False
    then have jl: "j = N - 1" using jN by simp
    have last: "\<not> j < length commands - 1" using False N by simp
    from stage_wired_last[OF Suc.prems(1) last st] obtain c where
      p1: "procs s1 = procs s @ [c]"
      and i: "0 < j \<longrightarrow> fd_lookup (child_fds c) 0 = Some (PipeRead (M0 + j - 1))"
      by blast
    have emp: "[Suc j..<N] = []" using jl jN by simp
    have s': "s' = s1" using rest unfolding emp by simp
    show ?thesis
      using p1 s' jl jN i by (intro exI[of _ "[c]"]) auto
  qed
qed

lemma procs_closes: "procs (fold sys_close xs s) = procs s"
  by (induction xs arbitrary: s) (simp_all add: sys_close_facts)

lemma procs_wait_all: "procs (wait_all os pids s) = procs s"
  unfolding wait_all_def
  by (induction pids arbitrary: s) (simp_all add: sys_waitpid_def emit_def)

lemma pipeline_wired:
  assumes std: "fd_lookup (fds s) 0 \<noteq> None" "fd_lookup (fds s) 1 \<noteq> None"
    and run: "executePipedCommand os tokens s = Inr s'"
    and k: "k + 1 < length (splitCommands tokens)"
  shows "fd_lookup (child_fds (procs s' ! (length (procs s) + k))) 1
           = Some (PipeWrite (pipes_made s + k)) \<and>
         fd_lookup (child_fds (procs s' ! (length (procs s) + k + 1))) 0
           = Some (PipeRead (pipes_made s + k))"
proof -
  let ?cmds = "splitCommands tokens"
  let ?N = "length ?cmds"
  let ?l0 = "\<lparr>in_fd = STDIN_FILENO, fds_vec = [], child_pids = []\<rparr>"
  from run obtain l s1 where
    lp: "executePipedCommand_loop os ?cmds [0..<?N] ?l0 s = Inr (l, s1)"
    and s': "s' = wait_all os (child_pids l) (fold sys_close (fds_vec l) s1)"
    by (auto simp: executePipedCommand_def Let_def split: sum.splits)
  have w0: "wired (fds s) (pipes_made s) 0 ?l0 s" by (simp add: wired_def)
  from loop_wired[OF std refl w0 _ lp] obtain cs where
    p: "procs s1 = procs s @ cs" and len: "length cs = ?N"
    and f: "\<forall>k. k < ?N - 0 \<longrightarrow>
              (0 + k < ?N - 1 \<longrightarrow> fd_lookup (child_fds (cs ! k)) 1 = Some (PipeWrite (pipes_made s + (0 + k)))) \<and>
              (0 < 0 + k \<longrightarrow> fd_lookup (child_fds (cs ! k)) 0 = Some (PipeRead (pipes_made s + (0 + k) - 1)))"
    by auto
  have ps': "procs s' = procs s @ cs" using p by (simp add: s' procs_wait_all procs_closes)
  have a: "fd_lookup (child_fds (cs ! k)) 1 = Some (PipeWrite (pipes_made s + k))"
    using f k by simp
  have "Suc k < ?N - 0" using k by simp
  with f have b: "fd_lookup (child_fds (cs ! Suc k)) 0 = Some (PipeRead (pipes_made s + k))"
    by fastforce
  show ?thesis using a b ps' by (simp add: nth_append)
qed

lemma loop_total:
  assumes ok: "\<forall>n. \<not> pipe_fails os n" "\<forall>n. \<not> fork_fails os n"
  shows "\<exists>r. executePipedCommand_loop os commands js l s = Inr r"
proof (induction js arbitrary: l s)
  case Nil
  then show ?case by simp
next
  case (Cons i js)
  have "\<exists>l1 s1. executePipedCommand_stage os commands i l s = Inr (l1, s1)"
    using ok
    by (auto simp: executePipedCommand_stage_def pipe_setup_def sys_pipe_def sys_fork_def
        Let_def split: prod.splits)
  then obtain l1 s1 where "executePipedCommand_stage os commands i l s = Inr (l1, s1)" by blast
  then show ?case using Cons.IH[of l1 s1] by simp
qed

lemma pipeline_total:
  assumes ok: "\<forall>n. \<not> pipe_fails os n" "\<forall>n. \<not> fork_fails os n"
  shows "\<exists>s'. executePipedCommand os tokens s = Inr s'"
proof -
  from loop_total[OF ok] obtain r where
    "executePipedCommand_loop os (splitCommands tokens) [0..<length (splitCommands tokens)]
       \<lparr>in_fd = STDIN_FILENO, fds_vec = [], child_pids = []\<rparr> s = Inr r" by blast
  then show ?thesis by (cases r) (simp add: executePipedCommand_def Let_def)
qed

lemma loop_trailing_pipe:
  "rest \<noteq> [] \<Longrightarrow> last rest = ''|'' \<Longrightarrow> i + length rest = length tokens \<Longrightarrow>
   hasSyntaxErrors_loop tokens i a b c prev rest"
proof (induction rest arbitrary: i a b c prev)
  case Nil
  then show ?case by simp
next
  case (Cons t rest)
  show ?case
  proof (cases "rest = []")
    case True
    then have "t = ''|''" "i = length tokens - 1" using Cons.prems by auto
    then show ?thesis by simp
  next
    case False
    then have "last rest = ''|''" "Suc i + length rest = length tokens"
      using Cons.prems by auto
    then have ih: "hasSyntaxErrors_loop tokens (Suc i) a' b' c' prev' rest" for a' b' c' prev'
      using Cons.IH[OF False] by blast
    show ?thesis by (simp add: ih cong: if_cong)
  qed
qed

lemma validated_no_trailing_pipe:
  "tokens \<noteq> [] \<Longrightarrow> \<not> hasSyntaxErrors tokens \<Longrightarrow> last tokens \<noteq> ''|''"
  using loop_trailing_pipe[of tokens 0 tokens 0 0 0 "[]"] by (auto simp: hasSyntaxErrors_def)

lemma split_count:
  "ts \<noteq> [] \<Longrightarrow> last ts \<noteq> ''|'' \<Longrightarrow> length (splitCommands ts) = count_list ts ''|'' + 1"
proof (induction ts rule: splitCommands.induct)
  case (1 ts)
  let ?P = "\<lambda>t. t \<noteq> ''|''"
  have ts: "ts = takeWhile ?P ts @ dropWhile ?P ts" by simp
  have c0: "count_list (takeWhile ?P ts) ''|'' = 0"
    using count_list_0_iff[of "takeWhile ?P ts" "''|''"] by (auto dest: set_takeWhileD)
  show ?case
  proof (cases "dropWhile ?P ts")
    case Nil
    then have "count_list ts ''|'' = 0" using c0 ts by (metis append_Nil2)
    moreover have "splitCommands ts = [takeWhile ?P ts]"
      by (subst splitCommands.simps) (simp only: Nil "1.prems"(1) if_False list.case)
    ultimately show ?thesis by simp
  next
    case (Cons p after)
    then have p: "p = ''|''" using hd_dropWhile[of ?P ts] by auto
    have ts': "ts = takeWhile ?P ts @ p # after" using ts Cons by simp
    have cnt: "count_list ts ''|'' = Suc (count_list after ''|'')"
      using c0 p by (subst ts') simp
    have ne: "after \<noteq> []"
    proof
      assume "after = []"
      then have "last ts = p" using ts' by (metis last_snoc)
      then show False using p "1.prems" by simp
    qed
    have "last ts = last after" using ts' ne by (metis last_appendR last_ConsR list.distinct(1))
    then have la: "last after \<noteq> ''|''" using "1.prems" by simp
    have "length (splitCommands after) = count_list after ''|'' + 1"
      using "1.IH"[OF "1.prems"(1) Cons ne la] .
    moreover have "splitCommands ts = takeWhile ?P ts # splitCommands after"
      by (subst splitCommands.simps) (simp only: Cons "1.prems"(1) if_False list.case)
    ultimately show ?thesis using cnt by simp
  qed
qed

text \<open>
  C5. For a validated token sequence with \<open>N - 1\<close> pipe tokens, run from a shell whose
  standard input and output are open: the tokens are cut into \<open>N\<close> stages; whenever
  \<open>executePipedCommand\<close> returns, it has created exactly \<open>N - 1\<close> pipes and spawned
  exactly \<open>N\<close> processes, the \<open>k\<close>-th of them for stage \<open>k\<close>, and the \<open>k\<close>-th pipe it
  created is the standard output of stage \<open>k\<close> and the standard input of stage \<open>k + 1\<close>.
  It does return when no call of \<open>pipe\<close> or \<open>fork\<close> fails.
\<close>

theorem pipeline_pipes_and_processes:
  assumes std: "fd_lookup (fds s) STDIN_FILENO \<noteq> None" "fd_lookup (fds s) STDOUT_FILENO \<noteq> None"
    and valid: "tokens \<noteq> []" "\<not> hasSyntaxErrors tokens"
    and N: "N = count_list tokens ''|'' + 1"
  shows "length (splitCommands tokens) = N \<and>
         (\<forall>s'. executePipedCommand os tokens s = Inr s' \<longrightarrow>
            pipes_made s' = pipes_made s + (N - 1) \<and>
            length (procs s') = length (procs s) + N \<and>
            map child_role (drop (length (procs s)) (procs s')) = map Stage [0..<N] \<and>
            (\<forall>k. k + 1 < N \<longrightarrow>
               fd_lookup (child_fds (procs s' ! (length (procs s) + k))) STDOUT_FILENO
                 = Some (PipeWrite (pipes_made s + k)) \<and>
               fd_lookup (child_fds (procs s' ! (length (procs s) + k + 1))) STDIN_FILENO
                 = Some (PipeRead (pipes_made s + k)))) \<and>
         ((\<forall>n. \<not> pipe_fails os n) \<and> (\<forall>n. \<not> fork_fails os n) \<longrightarrow>
            (\<exists>s'. executePipedCommand os tokens s = Inr s'))"
proof (intro conjI allI impI)
  show len: "length (splitCommands tokens) = N"
    using split_count[OF valid(1) validated_no_trailing_pipe[OF valid]] N by simp
  have std': "fd_lookup (fds s) 0 \<noteq> None" "fd_lookup (fds s) 1 \<noteq> None"
    using std by (simp_all add: STDIN_FILENO_def STDOUT_FILENO_def)
  {
    fix s' assume run: "executePipedCommand os tokens s = Inr s'"
    from pipeline_book[OF run] obtain cs ev where
      a: "advances s s' cs
            (ev @ map Ev_waitpid (new_pids (length (procs s)) (length (splitCommands tokens))))
            (length (splitCommands tokens) - 1)"
      and r: "map child_role cs = map Stage [0..<length (splitCommands tokens)]"
      by blast
    have lcs: "length cs = N" using r len by (metis length_map length_upt minus_nat.diff_0)
    have ps: "procs s' = procs s @ cs" using a by (simp add: advances_def)
    show "pipes_made s' = pipes_made s + (N - 1)" using a len by (simp add: advances_def)
    show "length (procs s') = length (procs s) + N" using ps lcs by simp
    show "map child_role (drop (length (procs s)) (procs s')) = map Stage [0..<N]"
      using ps r len by simp
    fix k assume k: "k + 1 < N"
    then have k': "k + 1 < length (splitCommands tokens)" using len by simp
    from pipeline_wired[OF std' run k']
    show "fd_lookup (child_fds (procs s' ! (length (procs s) + k))) STDOUT_FILENO
                 = Some (PipeWrite (pipes_made s + k))"
      and "fd_lookup (child_fds (procs s' ! (length (procs s) + k + 1))) STDIN_FILENO
                 = Some (PipeRead (pipes_made s + k))"
      by (simp_all add: STDIN_FILENO_def STDOUT_FILENO_def)
  }
  assume "(\<forall>n. \<not> pipe_fails os n) \<and> (\<forall>n. \<not> fork_fails os n)"
  then show "\<exists>s'. executePipedCommand os tokens s = Inr s'"
    using pipeline_total by blast
qed

theorem pipeline_pipes_and_processes_witness:
  "fd_lookup (fds shell0) STDIN_FILENO \<noteq> None \<and>
   fd_lookup (fds shell0) STDOUT_FILENO \<noteq> None \<and>
   \<not> hasSyntaxErrors [''cat'', ''<'', ''in'', ''|'', ''sort'', ''|'', ''wc'', ''>'', ''out''] \<and>
   count_list [''cat'', ''<'', ''in'', ''|'', ''sort'', ''|'', ''wc'', ''>'', ''out''] ''|'' + 1 = 3 \<and>
   length (splitCommands [''cat'', ''<'', ''in'', ''|'', ''sort'', ''|'', ''wc'', ''>'', ''out'']) = 3 \<and>
   (\<exists>s'. executePipedCommand os_ok
            [''cat'', ''<'', ''in'', ''|'', ''sort'', ''|'', ''wc'', ''>'', ''out''] shell0 = Inr s' \<and>
         pipes_made s' = 2 \<and> length (procs s') = 3 \<and>
         map child_role (procs s') = [Stage 0, Stage 1, Stage 2] \<and>
         fd_lookup (child_fds (procs s' ! 0)) STDOUT_FILENO = Some (PipeWrite 0) \<and>
         fd_lookup (child_fds (procs s' ! 1)) STDIN_FILENO = Some (PipeRead 0) \<and>
         fd_lookup (child_fds (procs s' ! 1)) STDOUT_FILENO = Some (PipeWrite 1) \<and>
         fd_lookup (child_fds (procs s' ! 2)) STDIN_FILENO = Some (PipeRead 1))"
proof -
  let ?toks = "[''cat'', ''<'', ''in'', ''|'', ''sort'', ''|'', ''wc'', ''>'', ''out'']"
  have i: "fd_lookup (fds shell0) STDIN_FILENO \<noteq> None" by code_simp
  have o: "fd_lookup (fds shell0) STDOUT_FILENO \<noteq> None" by code_simp
  have ne: "?toks \<noteq> []" by simp
  have v: "\<not> hasSyntaxErrors ?toks" by code_simp
  have n: "(3::nat) = count_list ?toks ''|'' + 1" by simp
  have p0: "pipes_made shell0 = 0" "length (procs shell0) = 0" by (simp_all add: shell0_def)
  have ok: "(\<forall>n. \<not> pipe_fails os_ok n) \<and> (\<forall>n. \<not> fork_fails os_ok n)"
    by (simp add: os_ok_def)
  note th = pipeline_pipes_and_processes[OF i o ne v n, of os_ok]
  from th ok obtain s' where run: "executePipedCommand os_ok ?toks shell0 = Inr s'" by blast
  from th run have f: "pipes_made s' = pipes_made shell0 + (3 - 1)"
    "length (procs s') = length (procs shell0) + 3"
    "map child_role (drop (length (procs shell0)) (procs s')) = map Stage [0..<3]"
    and w: "\<forall>k. k + 1 < 3 \<longrightarrow>
               fd_lookup (child_fds (procs s' ! (length (procs shell0) + k))) STDOUT_FILENO
                 = Some (PipeWrite (pipes_made shell0 + k)) \<and>
               fd_lookup (child_fds (procs s' ! (length (procs shell0) + k + 1))) STDIN_FILENO
                 = Some (PipeRead (pipes_made shell0 + k))"
    by blast+
  have w0: "fd_lookup (child_fds (procs s' ! 0)) STDOUT_FILENO = Some (PipeWrite 0)"
    "fd_lookup (child_fds (procs s' ! 1)) STDIN_FILENO = Some (PipeRead 0)"
    using w[rule_format, of 0] p0 by simp_all
  have w1: "fd_lookup (child_fds (procs s' ! 1)) STDOUT_FILENO = Some (PipeWrite 1)"
    "fd_lookup (child_fds (procs s' ! 2)) STDIN_FILENO = Some (PipeRead 1)"
    using w[rule_format, of 1] p0 by (simp_all add: numeral_2_eq_2)
  have u: "[0..<3] = [0, 1, 2]" by (simp add: upt_rec)
  have r: "map child_role (procs s') = [Stage 0, Stage 1, Stage 2]"
    using f(3) p0 u by simp
  have l: "length (splitCommands ?toks) = 3" using th by blast
  show ?thesis
    using i o v n l run f(1,2) r w0 w1 p0 by (intro conjI exI[of _ s']) simp_all
qed

end
